theory Spec2Isabelle
  imports Main "HOL-Library.Word"
begin

unbundle bit_operations_syntax

section \<open>The board model of subsets.c\<close>

text \<open>
  The arrays of \<^verbatim>\<open>struct game_state\<close> hold \<^verbatim>\<open>unsigned int\<close>, modelled as 32-bit
  words. The dimensions \<^verbatim>\<open>w\<close>, \<^verbatim>\<open>h\<close>, \<^verbatim>\<open>n\<close> are C ints that are never negative in
  a state built by \<^verbatim>\<open>blank_game\<close>; they are natural numbers here. The fields are
  prefixed where the C name is a single letter or clashes with a library constant.
\<close>

type_synonym uint = "32 word"

record game_state =
  st_w :: nat
  st_h :: nat
  st_n :: nat
  clues :: "uint list"
  immutable :: "uint list"
  known :: "uint list"
  st_mask :: "uint list"
  completed :: bool
  cheated :: bool

record game_params =
  par_w :: nat
  par_h :: nat
  par_n :: nat

text \<open>\<^verbatim>\<open>#define ALL_BITS(n) ((1 << (n)) - 1)\<close>\<close>

definition ALL_BITS :: "nat \<Rightarrow> uint" where
  "ALL_BITS k = push_bit k 1 - 1"

definition F_ADJ_UP :: uint where "F_ADJ_UP = 1"
definition F_ADJ_RIGHT :: uint where "F_ADJ_RIGHT = 2"
definition F_ADJ_DOWN :: uint where "F_ADJ_DOWN = 4"
definition F_ADJ_LEFT :: uint where "F_ADJ_LEFT = 8"

record adj =
  adj_f :: uint
  adj_fo :: uint
  adj_dx :: int
  adj_dy :: int
  adj_c :: char
  adj_enc :: char

definition adjthan :: "adj list" where
  "adjthan =
    [\<lparr>adj_f = F_ADJ_UP, adj_fo = F_ADJ_DOWN, adj_dx = 0, adj_dy = -1, adj_c = CHR ''^'', adj_enc = CHR ''U''\<rparr>,
     \<lparr>adj_f = F_ADJ_RIGHT, adj_fo = F_ADJ_LEFT, adj_dx = 1, adj_dy = 0, adj_c = CHR ''>'', adj_enc = CHR ''R''\<rparr>,
     \<lparr>adj_f = F_ADJ_DOWN, adj_fo = F_ADJ_UP, adj_dx = 0, adj_dy = 1, adj_c = CHR ''v'', adj_enc = CHR ''D''\<rparr>,
     \<lparr>adj_f = F_ADJ_LEFT, adj_fo = F_ADJ_RIGHT, adj_dx = -1, adj_dy = 0, adj_c = CHR ''<'', adj_enc = CHR ''L''\<rparr>]"

text \<open>\<^verbatim>\<open>blank_game\<close>: every cell without clue, unknown in every bit.\<close>

definition blank_game :: "game_params \<Rightarrow> game_state" where
  "blank_game params =
    (let s = par_w params * par_h params in
     \<lparr>st_w = par_w params, st_h = par_h params, st_n = par_n params,
      clues = replicate s 0, immutable = replicate s 0, known = replicate s 0,
      st_mask = replicate s (ALL_BITS (par_n params)),
      completed = False, cheated = False\<rparr>)"

text \<open>\<^verbatim>\<open>dup_game\<close>: fresh arrays of \<^verbatim>\<open>w * h\<close> cells, filled by \<^verbatim>\<open>memcpy\<close>.\<close>

definition dup_game :: "game_state \<Rightarrow> game_state" where
  "dup_game state =
    (let s = st_w state * st_h state in
     \<lparr>st_w = st_w state, st_h = st_h state, st_n = st_n state,
      clues = take s (clues state), immutable = take s (immutable state),
      known = take s (known state), st_mask = take s (st_mask state),
      completed = completed state, cheated = cheated state\<rparr>)"

section \<open>The validator\<close>

datatype status = STATUS_COMPLETE | STATUS_UNFINISHED | STATUS_INVALID

text \<open>
  First loop of \<^verbatim>\<open>subsets_validate\<close>. \<open>None\<close> is the early
  \<^verbatim>\<open>return STATUS_UNFINISHED\<close> taken when neither buffer is supplied.
\<close>

fun validate_unresolved :: "game_state \<Rightarrow> bool \<Rightarrow> nat list \<Rightarrow> status \<Rightarrow> status option" where
  "validate_unresolved state nobuf [] ret = Some ret"
| "validate_unresolved state nobuf (i # is) ret =
    (if known state ! i \<noteq> st_mask state ! i
     then (if nobuf then None else validate_unresolved state nobuf is STATUS_UNFINISHED)
     else validate_unresolved state nobuf is ret)"

text \<open>
  The loop under \<^verbatim>\<open>/* Validate counts */\<close>; \<open>hasflags\<close> says whether a flags buffer was
  passed. The \<^verbatim>\<open>break\<close> ends the loop at the first duplicate when there is none.
\<close>

fun validate_counts :: "game_state \<Rightarrow> bool \<Rightarrow> nat list \<Rightarrow> status \<times> int list \<Rightarrow> status \<times> int list" where
  "validate_counts state hasflags [] acc = acc"
| "validate_counts state hasflags (i # is) (ret, counts) =
    (if known state ! i = st_mask state ! i
     then (let v = unat (known state ! i);
               counts' = counts[v := counts ! v + 1];
               ret' = (if counts' ! v > 1 then STATUS_INVALID else ret)
           in if \<not> hasflags \<and> ret' = STATUS_INVALID then (ret', counts')
              else validate_counts state hasflags is (ret', counts'))
     else validate_counts state hasflags is (ret, counts))"

text \<open>\<^verbatim>\<open>ret = STATUS_INVALID; if (flags) flags[i] |= adjthan[dir].f;\<close>\<close>

definition flag_edge :: "nat \<Rightarrow> uint \<Rightarrow> status \<times> uint list option \<Rightarrow> status \<times> uint list option" where
  "flag_edge i f acc =
    (STATUS_INVALID, map_option (\<lambda>flags. flags[i := flags ! i OR f]) (snd acc))"

text \<open>The body of the loop over \<^verbatim>\<open>dir\<close> under \<^verbatim>\<open>/* Validate arrows */\<close>.\<close>

definition validate_dir ::
  "game_state \<Rightarrow> nat \<Rightarrow> nat \<Rightarrow> nat \<Rightarrow> status \<times> uint list option \<Rightarrow> status \<times> uint list option" where
  "validate_dir state y x dir acc =
    (let a = adjthan ! dir;
         x2 = int x + adj_dx a;
         y2 = int y + adj_dy a;
         i = y * st_w state + x
     in if x2 < 0 \<or> x2 \<ge> int (st_w state) \<or> y2 < 0 \<or> y2 \<ge> int (st_h state) then acc
        else let i2 = nat y2 * st_w state + nat x2 in
          if known state ! i2 \<noteq> st_mask state ! i2 then acc
          else if clues state ! i AND adj_f a = 0 \<and> (x2 < int x \<or> y2 < int y) then acc
          else let intersect = known state ! i AND known state ! i2 in
            if clues state ! i AND adj_f a \<noteq> 0
            then (if intersect \<noteq> known state ! i2 then flag_edge i (adj_f a) acc else acc)
            else if clues state ! i2 AND adj_fo a = 0
            then (if intersect = known state ! i2 \<or> intersect = known state ! i
                  then flag_edge i (adj_f a) acc else acc)
            else acc)"

text \<open>
  The loop over \<^verbatim>\<open>x\<close>: its \<^verbatim>\<open>break\<close> leaves the row once the board is invalid and no
  flags are wanted; an unresolved cell is skipped.
\<close>

fun validate_row ::
  "game_state \<Rightarrow> nat \<Rightarrow> nat list \<Rightarrow> status \<times> uint list option \<Rightarrow> status \<times> uint list option" where
  "validate_row state y [] acc = acc"
| "validate_row state y (x # xs) acc =
    (if fst acc = STATUS_INVALID \<and> snd acc = None then acc
     else if known state ! (y * st_w state + x) \<noteq> st_mask state ! (y * st_w state + x)
     then validate_row state y xs acc
     else validate_row state y xs (fold (validate_dir state y x) [0..<4] acc))"

definition validate_arrows ::
  "game_state \<Rightarrow> status \<times> uint list option \<Rightarrow> status \<times> uint list option" where
  "validate_arrows state acc =
    fold (\<lambda>y. validate_row state y [0..<st_w state]) [0..<st_h state] acc"

text \<open>
  \<^verbatim>\<open>subsets_validate(state, flags, counts)\<close>. Both buffers are output only (each is
  cleared by \<^verbatim>\<open>memset\<close> before it is written), so the model takes whether each one is
  supplied and returns the status with the final content of the supplied ones.
\<close>

definition subsets_validate ::
  "game_state \<Rightarrow> bool \<Rightarrow> bool \<Rightarrow> status \<times> uint list option \<times> int list option" where
  "subsets_validate state hasflags hascounts =
    (let s = st_w state * st_h state in
     case validate_unresolved state (\<not> hasflags \<and> \<not> hascounts) [0..<s] STATUS_COMPLETE of
       None \<Rightarrow> (STATUS_UNFINISHED, None, None)
     | Some ret0 \<Rightarrow>
        (let flags0 = (if hasflags then Some (replicate s 0) else None);
             (ret1, counts1) = validate_counts state hasflags [0..<s] (ret0, replicate s 0);
             (ret2, flags2) = validate_arrows state (ret1, flags0)
         in (ret2, flags2, if hascounts then Some counts1 else None)))"

text \<open>
  The vocabulary of the specification, for stating what the validator computes: a cell
  is resolved when its bounds meet, \<open>neighbour\<close> is the cell next to \<open>i\<close> in direction
  \<open>d\<close> (an index into \<open>adjthan\<close>) when the grid has one, and \<open>arrow s i d\<close> says that
  \<open>clues[i]\<close> carries the arrow of direction \<open>d\<close>.
\<close>

definition resolved :: "game_state \<Rightarrow> nat \<Rightarrow> bool" where
  "resolved s i = (known s ! i = st_mask s ! i)"

definition neighbour :: "game_state \<Rightarrow> nat \<Rightarrow> nat \<Rightarrow> nat option" where
  "neighbour s i d =
    (let x2 = int (i mod st_w s) + adj_dx (adjthan ! d);
         y2 = int (i div st_w s) + adj_dy (adjthan ! d)
     in if x2 < 0 \<or> x2 \<ge> int (st_w s) \<or> y2 < 0 \<or> y2 \<ge> int (st_h s) then None
        else Some (nat y2 * st_w s + nat x2))"

definition arrow :: "game_state \<Rightarrow> nat \<Rightarrow> nat \<Rightarrow> bool" where
  "arrow s i d = (clues s ! i AND adj_f (adjthan ! d) \<noteq> 0)"

definition opposite :: "nat \<Rightarrow> nat" where
  "opposite d = (d + 2) mod 4"

text \<open>Some value is held by two resolved cells.\<close>

definition has_duplicate :: "game_state \<Rightarrow> bool" where
  "has_duplicate s =
    (\<exists>i \<in> {0..<st_w s * st_h s}. \<exists>j \<in> {0..<st_w s * st_h s}.
       i \<noteq> j \<and> resolved s i \<and> resolved s j \<and> known s ! i = known s ! j)"

text \<open>
  The edge from cell \<open>i\<close> in direction \<open>d\<close> joins two resolved cells and breaks its
  constraint: an arrow from \<open>i\<close> whose target is not contained in \<open>i\<close>, or no arrow
  either way although one value contains the other.
\<close>

definition edge_violated :: "game_state \<Rightarrow> nat \<Rightarrow> nat \<Rightarrow> bool" where
  "edge_violated s i d =
    (case neighbour s i d of
       None \<Rightarrow> False
     | Some j \<Rightarrow>
        resolved s i \<and> resolved s j \<and>
        (let x = known s ! i AND known s ! j in
         if arrow s i d then x \<noteq> known s ! j
         else \<not> arrow s j (opposite d) \<and> (x = known s ! j \<or> x = known s ! i)))"

definition has_violation :: "game_state \<Rightarrow> bool" where
  "has_violation s = (\<exists>i \<in> {0..<st_w s * st_h s}. \<exists>d \<in> {0..<4}. edge_violated s i d)"

definition has_unresolved :: "game_state \<Rightarrow> bool" where
  "has_unresolved s = (\<exists>i \<in> {0..<st_w s * st_h s}. \<not> resolved s i)"

text \<open>The number of resolved cells whose value is \<open>v\<close>.\<close>

definition occurrences :: "game_state \<Rightarrow> nat \<Rightarrow> nat" where
  "occurrences s v =
    length (filter (\<lambda>i. resolved s i \<and> unat (known s ! i) = v) [0..<st_w s * st_h s])"

text \<open>
  What the validator needs of a board to stay inside its arrays: the four arrays have
  \<open>w * h\<close> cells, and the value of a resolved cell indexes \<open>counts\<close>.
\<close>

definition sized :: "game_state \<Rightarrow> bool" where
  "sized s =
    (length (clues s) = st_w s * st_h s \<and> length (immutable s) = st_w s * st_h s \<and>
     length (known s) = st_w s * st_h s \<and> length (st_mask s) = st_w s * st_h s)"

definition countable_board :: "game_state \<Rightarrow> bool" where
  "countable_board s =
    (\<forall>i \<in> {0..<st_w s * st_h s}. resolved s i \<longrightarrow> unat (known s ! i) < st_w s * st_h s)"

text \<open>
  The test the loop body \<open>validate_dir\<close> makes on the edge from cell \<open>(x, y)\<close> in
  direction \<open>dir\<close>, as one condition: the body flags the edge exactly when it holds.
\<close>

definition dir_check :: "game_state \<Rightarrow> nat \<Rightarrow> nat \<Rightarrow> nat \<Rightarrow> bool" where
  "dir_check state y x dir =
    (let a = adjthan ! dir;
         x2 = int x + adj_dx a;
         y2 = int y + adj_dy a;
         i = y * st_w state + x;
         i2 = nat y2 * st_w state + nat x2;
         intersect = known state ! i AND known state ! i2
     in \<not> (x2 < 0 \<or> x2 \<ge> int (st_w state) \<or> y2 < 0 \<or> y2 \<ge> int (st_h state)) \<and>
        known state ! i2 = st_mask state ! i2 \<and>
        \<not> (clues state ! i AND adj_f a = 0 \<and> (x2 < int x \<or> y2 < int y)) \<and>
        (if clues state ! i AND adj_f a \<noteq> 0 then intersect \<noteq> known state ! i2
         else clues state ! i2 AND adj_fo a = 0 \<and>
              (intersect = known state ! i2 \<or> intersect = known state ! i)))"

text \<open>The number of cells of a list that are resolved with value \<open>v\<close>.\<close>

definition occ_in :: "game_state \<Rightarrow> nat list \<Rightarrow> nat \<Rightarrow> nat" where
  "occ_in s is v = length (filter (\<lambda>i. resolved s i \<and> unat (known s ! i) = v) is)"

text \<open>
  Invariant of the arrow loops when a flags buffer is supplied: the bit of direction
  \<open>d\<close> is set on cell \<open>i\<close> exactly when that edge has been visited (\<open>(i, d) \<in> done\<close>)
  and its test held.
\<close>

definition flags_inv :: "game_state \<Rightarrow> (nat \<times> nat) set \<Rightarrow> status \<times> uint list option \<Rightarrow> bool" where
  "flags_inv s done acc =
    (case snd acc of
       None \<Rightarrow> False
     | Some fl \<Rightarrow>
        length fl = st_w s * st_h s \<and>
        (\<forall>i \<in> {0..<st_w s * st_h s}. \<forall>d \<in> {0..<4}.
           (fl ! i AND adj_f (adjthan ! d) \<noteq> 0) =
           ((i, d) \<in> done \<and> resolved s i \<and> dir_check s (i div st_w s) (i mod st_w s) d)))"

section \<open>The solver\<close>

text \<open>
  The three nested loops \<^verbatim>\<open>for (y ...) for (x ...) for (d = 0; d < 4; d++)\<close> that several
  routines share, with the loop body as a parameter.
\<close>

definition for_edges :: "nat \<Rightarrow> nat \<Rightarrow> (nat \<Rightarrow> nat \<Rightarrow> nat \<Rightarrow> 'a \<Rightarrow> 'a) \<Rightarrow> 'a \<Rightarrow> 'a" where
  "for_edges w h body acc =
    fold (\<lambda>y. fold (\<lambda>x. fold (\<lambda>d. body y x d) [0..<4]) [0..<w]) [0..<h] acc"

text \<open>
  The cube is the array \<^verbatim>\<open>bool cube[s * n2]\<close> with \<^verbatim>\<open>n2 = 1 << n\<close>; candidate \<open>nj\<close> of cell
  \<open>i\<close> is entry \<open>i * n2 + nj\<close>. Candidates are C ints; where the code combines one with
  an \<^verbatim>\<open>unsigned int\<close> of the board it is converted, here by \<open>of_nat\<close>.
\<close>

definition sync_cell :: "game_state \<Rightarrow> nat \<Rightarrow> nat \<Rightarrow> nat \<Rightarrow> bool list \<Rightarrow> bool list" where
  "sync_cell state n2 i nj cube =
    (if \<not> cube ! (i * n2 + nj) then cube
     else (let cube1 = (if st_mask state ! i AND of_nat nj \<noteq> of_nat nj
                        then cube[i * n2 + nj := False] else cube)
           in if known state ! i AND of_nat nj \<noteq> known state ! i
              then cube1[i * n2 + nj := False] else cube1))"

definition subsets_sync_cube :: "game_state \<Rightarrow> bool list \<Rightarrow> bool list" where
  "subsets_sync_cube state cube =
    (let s = st_w state * st_h state; n2 = 2 ^ st_n state
     in fold (\<lambda>i. fold (sync_cell state n2 i) [0..<n2]) [0..<s] cube)"

definition single_count_cell :: "game_state \<Rightarrow> nat \<Rightarrow> nat \<Rightarrow> nat \<Rightarrow> bool list \<Rightarrow> bool list" where
  "single_count_cell state n2 ni j cube =
    (if st_mask state ! j = known state ! j then cube
     else if \<not> cube ! (j * n2 + ni) then cube
     else cube[j * n2 + ni := False])"

definition subsets_cube_single_count :: "game_state \<Rightarrow> int list \<Rightarrow> bool list \<Rightarrow> bool list" where
  "subsets_cube_single_count state counts cube =
    (let s = st_w state * st_h state; n2 = 2 ^ st_n state
     in fold (\<lambda>ni cube. if counts ! ni \<noteq> 1 then cube
                         else fold (single_count_cell state n2 ni) [0..<s] cube) [0..<n2] cube)"

text \<open>
  \<^verbatim>\<open>subsets_solve_apply_arrows\<close>: the body for one cell and direction, on the pair of the
  progress counter \<^verbatim>\<open>ret\<close> and the board.
\<close>

definition arrows_step :: "nat \<Rightarrow> nat \<Rightarrow> nat \<Rightarrow> nat \<times> game_state \<Rightarrow> nat \<times> game_state" where
  "arrows_step y x d acc =
    (let (ret, state) = acc;
         i1 = y * st_w state + x
     in if clues state ! i1 AND adj_f (adjthan ! d) = 0 then acc
        else (let i2 = nat (int i1 + adj_dy (adjthan ! d) * int (st_w state) + adj_dx (adjthan ! d));
                  prev = known state ! i1;
                  state1 = state\<lparr>known := (known state)[i1 := known state ! i1 OR known state ! i2]\<rparr>;
                  ret1 = (if prev \<noteq> known state1 ! i1 then ret + 1 else ret);
                  prev2 = st_mask state1 ! i2;
                  state2 = state1\<lparr>st_mask := (st_mask state1)[i2 := st_mask state1 ! i2 AND st_mask state1 ! i1]\<rparr>;
                  ret2 = (if prev2 \<noteq> st_mask state2 ! i2 then ret1 + 1 else ret1)
              in (ret2, state2)))"

definition subsets_solve_apply_arrows :: "game_state \<Rightarrow> nat \<times> game_state" where
  "subsets_solve_apply_arrows state = for_edges (st_w state) (st_h state) arrows_step (0, state)"

text \<open>
  \<^verbatim>\<open>subsets_solve_single_position\<close>. The inner loop leaves \<^verbatim>\<open>found\<close> at -1 when no cell
  has the candidate, at the cell when exactly one has, and stops at -2 on the second.
\<close>

fun find_single :: "bool list \<Rightarrow> nat \<Rightarrow> nat \<Rightarrow> nat list \<Rightarrow> int \<Rightarrow> int" where
  "find_single cube n2 nj [] found = found"
| "find_single cube n2 nj (i # is) found =
    (if found = - 2 then found
     else if \<not> cube ! (i * n2 + nj) then find_single cube n2 nj is found
     else find_single cube n2 nj is (if found = - 1 then int i else - 2))"

definition single_position_step ::
  "int list \<Rightarrow> bool list \<Rightarrow> nat \<Rightarrow> nat \<times> game_state \<Rightarrow> nat \<times> game_state" where
  "single_position_step counts cube nj acc =
    (let (ret, state) = acc in
     if counts ! nj \<noteq> 0 then acc
     else (let found = find_single cube (2 ^ st_n state) nj [0..<st_w state * st_h state] (- 1)
           in if found < 0 then acc
              else (ret + 1,
                    state\<lparr>known := (known state)[nat found := of_nat nj],
                          st_mask := (st_mask state)[nat found := of_nat nj]\<rparr>)))"

definition subsets_solve_single_position ::
  "game_state \<Rightarrow> int list \<Rightarrow> bool list \<Rightarrow> nat \<times> game_state" where
  "subsets_solve_single_position state counts cube =
    fold (single_position_step counts cube) [0..<2 ^ st_n state] (0, state)"

text \<open>
  \<^verbatim>\<open>subsets_bits_from_cube\<close>. \<open>cube_bounds\<close> is the inner loop: \<^verbatim>\<open>newmask\<close> starts at 0 and
  collects the candidates by \<^verbatim>\<open>|=\<close>, \<^verbatim>\<open>newknown\<close> starts at \<^verbatim>\<open>~0\<close> and collects them by \<^verbatim>\<open>&=\<close>.
\<close>

definition cube_bounds :: "bool list \<Rightarrow> nat \<Rightarrow> nat \<Rightarrow> uint \<times> uint" where
  "cube_bounds cube n2 i =
    fold (\<lambda>nj (newmask, newknown).
            if cube ! (i * n2 + nj) then (newmask OR of_nat nj, newknown AND of_nat nj)
            else (newmask, newknown))
         [0..<n2] (0, NOT 0)"

definition bits_step :: "bool list \<Rightarrow> nat \<Rightarrow> nat \<times> game_state \<Rightarrow> nat \<times> game_state" where
  "bits_step cube i acc =
    (let (ret, state) = acc;
         (newmask, newknown) = cube_bounds cube (2 ^ st_n state) i;
         prev = known state ! i;
         state1 = state\<lparr>known := (known state)[i := known state ! i OR newknown]\<rparr>;
         ret1 = (if prev \<noteq> known state1 ! i then ret + 1 else ret);
         prev2 = st_mask state1 ! i;
         state2 = state1\<lparr>st_mask := (st_mask state1)[i := st_mask state1 ! i AND newmask]\<rparr>;
         ret2 = (if prev2 \<noteq> st_mask state2 ! i then ret1 + 1 else ret1)
     in (ret2, state2))"

definition subsets_bits_from_cube :: "game_state \<Rightarrow> bool list \<Rightarrow> nat \<times> game_state" where
  "subsets_bits_from_cube state cube =
    fold (bits_step cube) [0..<st_w state * st_h state] (0, state)"

text \<open>
  \<^verbatim>\<open>subsets_solve_apply_arrows_advanced\<close>. The search for a witness \<^verbatim>\<open>sub < super\<close> is
  the existence test over \<open>[0..<super]\<close>; candidates are ints, combined as such.
\<close>

definition advanced_super :: "nat \<Rightarrow> nat \<Rightarrow> nat \<Rightarrow> nat \<Rightarrow> nat \<times> bool list \<Rightarrow> nat \<times> bool list" where
  "advanced_super n2 i1 i2 super acc =
    (let (ret, cube) = acc in
     if \<not> cube ! (i1 * n2 + super) then acc
     else (let found = list_ex (\<lambda>sub. \<not> (super AND sub \<noteq> sub \<or> \<not> cube ! (i2 * n2 + sub))) [0..<super]
           in if \<not> found then (ret + 1, cube[i1 * n2 + super := False]) else acc))"

definition advanced_step ::
  "game_state \<Rightarrow> nat \<Rightarrow> nat \<Rightarrow> nat \<Rightarrow> nat \<times> bool list \<Rightarrow> nat \<times> bool list" where
  "advanced_step state y x d acc =
    (let i1 = y * st_w state + x in
     if clues state ! i1 AND adj_f (adjthan ! d) = 0 then acc
     else (let i2 = nat (int i1 + adj_dy (adjthan ! d) * int (st_w state) + adj_dx (adjthan ! d))
           in fold (advanced_super (2 ^ st_n state) i1 i2) [0..<2 ^ st_n state] acc))"

definition subsets_solve_apply_arrows_advanced :: "game_state \<Rightarrow> bool list \<Rightarrow> nat \<times> bool list" where
  "subsets_solve_apply_arrows_advanced state cube =
    for_edges (st_w state) (st_h state) (advanced_step state) (0, cube)"

text \<open>\<^verbatim>\<open>subsets_disjoint\<close>: the loop over \<^verbatim>\<open>opt\<close>, and the body for one cell and direction.\<close>

definition disjoint_opt ::
  "game_state \<Rightarrow> nat \<Rightarrow> nat \<Rightarrow> nat \<Rightarrow> nat \<Rightarrow> nat \<times> bool list \<Rightarrow> nat \<times> bool list" where
  "disjoint_opt state n2 i1 i2 opt acc =
    (let (ret, cube) = acc in
     if \<not> cube ! (i2 * n2 + opt) then acc
     else if known state ! i1 AND of_nat opt \<noteq> of_nat opt \<and>
             known state ! i1 AND of_nat opt \<noteq> known state ! i1 then acc
     else (ret + 1, cube[i2 * n2 + opt := False]))"

definition disjoint_step ::
  "game_state \<Rightarrow> nat \<Rightarrow> nat \<Rightarrow> nat \<Rightarrow> nat \<times> bool list \<Rightarrow> nat \<times> bool list" where
  "disjoint_step state y x d acc =
    (let (ret, cube) = acc;
         n2 = 2 ^ st_n state;
         i1 = y * st_w state + x
     in if clues state ! i1 AND adj_f (adjthan ! d) \<noteq> 0 then acc
        else if int x + adj_dx (adjthan ! d) < 0 \<or> int x + adj_dx (adjthan ! d) \<ge> int (st_w state) \<or>
                int y + adj_dy (adjthan ! d) < 0 \<or> int y + adj_dy (adjthan ! d) \<ge> int (st_h state)
        then acc
        else (let i2 = nat (int i1 + adj_dy (adjthan ! d) * int (st_w state) + adj_dx (adjthan ! d))
              in if clues state ! i2 AND adj_fo (adjthan ! d) \<noteq> 0 then acc
                 else if known state ! i1 \<noteq> st_mask state ! i1
                 then (if cube ! (i1 * n2) \<or> cube ! (i1 * n2 + (n2 - 1))
                       then (ret + 1, cube[i1 * n2 := False, i1 * n2 + (n2 - 1) := False])
                       else acc)
                 else if known state ! i2 \<noteq> st_mask state ! i2
                 then fold (disjoint_opt state n2 i1 i2) [0..<n2] acc
                 else acc))"

definition subsets_disjoint :: "game_state \<Rightarrow> bool list \<Rightarrow> nat \<times> bool list" where
  "subsets_disjoint state cube =
    for_edges (st_w state) (st_h state) (disjoint_step state) (0, cube)"

text \<open>
  \<^verbatim>\<open>subsets_solve_game\<close>. \<open>solver_reset\<close> is its first loop. \<open>solver_pass\<close> is the body of
  the \<^verbatim>\<open>while\<close> loop once the validator has returned unfinished with its counts; the
  flag it returns says whether the loop goes round again (a \<^verbatim>\<open>continue\<close>) or ends
  (\<^verbatim>\<open>break\<close>).
\<close>

definition solver_reset :: "game_state \<Rightarrow> game_state" where
  "solver_reset state =
    fold (\<lambda>i st. if immutable st ! i \<noteq> 0 then st
                  else st\<lparr>known := (known st)[i := 0],
                          st_mask := (st_mask st)[i := ALL_BITS (st_n st)]\<rparr>)
         [0..<st_w state * st_h state] state"

definition solver_pass :: "game_state \<Rightarrow> int list \<Rightarrow> bool list \<Rightarrow> bool \<times> game_state \<times> bool list" where
  "solver_pass state counts cube =
    (let cube1 = subsets_sync_cube state cube;
         cube2 = subsets_cube_single_count state counts cube1;
         (r1, state1) = subsets_solve_apply_arrows state
     in if r1 \<noteq> 0 then (True, state1, cube2)
        else (let (r2, cube3) = subsets_disjoint state1 cube2
              in if r2 \<noteq> 0 then (True, state1, cube3)
                 else (let (r3, state2) = subsets_bits_from_cube state1 cube3
                       in if r3 \<noteq> 0 then (True, state2, cube3)
                          else (let (r4, state3) = subsets_solve_single_position state2 counts cube3
                                in if r4 \<noteq> 0 then (True, state3, cube3)
                                   else (let (r5, cube4) = subsets_solve_apply_arrows_advanced state3 cube3
                                         in if r5 \<noteq> 0 then (True, state3, cube4)
                                            else (False, state3, cube4))))))"

text \<open>The counts the validator leaves in the buffer passed to it.\<close>

definition counts_of :: "status \<times> uint list option \<times> int list option \<Rightarrow> int list" where
  "counts_of v = (case snd (snd v) of None \<Rightarrow> [] | Some counts \<Rightarrow> counts)"

text \<open>The \<^verbatim>\<open>while\<close> loop; \<open>None\<close> stands for a loop that never ends.\<close>

partial_function (option) solver_loop :: "game_state \<Rightarrow> bool list \<Rightarrow> (status \<times> game_state) option" where
  "solver_loop state cube =
    (let v = subsets_validate state False True;
         ret = fst v
     in if ret = STATUS_UNFINISHED
        then (let r = solver_pass state (counts_of v) cube
              in if fst r then solver_loop (fst (snd r)) (snd (snd r))
                 else Some (ret, fst (snd r)))
        else Some (ret, state))"

declare solver_loop.simps [code]

definition subsets_solve_game :: "game_state \<Rightarrow> (status \<times> game_state) option" where
  "subsets_solve_game state =
    solver_loop (solver_reset state)
      (replicate (st_w state * st_h state * 2 ^ st_n state) True)"

section \<open>Vocabulary for the claims about the solver\<close>

text \<open>Containment of bit sets: \<open>bits_le a b\<close> is \<open>a \<subseteq> b\<close>.\<close>

definition bits_le :: "uint \<Rightarrow> uint \<Rightarrow> bool" where
  "bits_le a b = (a AND b = a)"

text \<open>A candidate and a value are comparable when one contains the other.\<close>

definition comparable :: "uint \<Rightarrow> nat \<Rightarrow> bool" where
  "comparable v opt = (v AND of_nat opt = of_nat opt \<or> v AND of_nat opt = v)"

text \<open>
  The edge from \<open>i\<close> in direction \<open>d\<close> leads to \<open>j\<close> and neither cell carries an arrow
  toward the other: the two values must be incomparable.
\<close>

definition incomparable_edge :: "game_state \<Rightarrow> nat \<Rightarrow> nat \<Rightarrow> nat \<Rightarrow> bool" where
  "incomparable_edge s i d j =
    (neighbour s i d = Some j \<and> \<not> arrow s i d \<and> \<not> arrow s j (opposite d))"

text \<open>
  A board the solver can run on without leaving its arrays: the arrays have \<open>w * h\<close>
  cells, there are as many cells as values (\<open>w * h = 2 ^ n\<close>, as \<^verbatim>\<open>validate_params\<close>
  enforces with 4, 4, 4), every upper bound lies within \<open>ALL_BITS(n)\<close>, and every arrow
  points at a cell of the grid (as \<^verbatim>\<open>attempt_load_game\<close> enforces).
\<close>

definition wf_board :: "game_state \<Rightarrow> bool" where
  "wf_board s =
    (sized s \<and> st_w s * st_h s = 2 ^ st_n s \<and> st_n s < 32 \<and>
     (\<forall>i \<in> {0..<st_w s * st_h s}. bits_le (st_mask s ! i) (ALL_BITS (st_n s))) \<and>
     (\<forall>i \<in> {0..<st_w s * st_h s}. \<forall>d \<in> {0..<4}. arrow s i d \<longrightarrow> neighbour s i d \<noteq> None))"

text \<open>
  \<open>tighter s' s\<close>: the board \<open>s'\<close> is \<open>s\<close> with bounds that are at least as tight in every
  cell, and nothing else changed.
\<close>

definition tighter :: "game_state \<Rightarrow> game_state \<Rightarrow> bool" where
  "tighter s' s =
    (st_w s' = st_w s \<and> st_h s' = st_h s \<and> st_n s' = st_n s \<and> clues s' = clues s \<and>
     immutable s' = immutable s \<and> completed s' = completed s \<and> cheated s' = cheated s \<and>
     length (known s') = length (known s) \<and> length (st_mask s') = length (st_mask s) \<and>
     (\<forall>i < length (known s). bits_le (known s ! i) (known s' ! i)) \<and>
     (\<forall>i < length (st_mask s). bits_le (st_mask s' ! i) (st_mask s ! i)))"

text \<open>\<open>cube_le c' c\<close>: the cube \<open>c'\<close> is \<open>c\<close> with some candidates eliminated.\<close>

definition cube_le :: "bool list \<Rightarrow> bool list \<Rightarrow> bool" where
  "cube_le c' c = (length c' = length c \<and> (\<forall>k < length c. c' ! k \<longrightarrow> c ! k))"

text \<open>The cube \<open>c\<close> with the entries at the indices in \<open>K\<close> cleared.\<close>

definition kill :: "nat set \<Rightarrow> bool list \<Rightarrow> bool list" where
  "kill K c = map (\<lambda>k. c ! k \<and> k \<notin> K) [0..<length c]"

text \<open>
  The cube entries one round of the body of \<^verbatim>\<open>subsets_disjoint\<close> clears, for stating
  what the whole routine clears.
\<close>

definition disjoint_targets :: "game_state \<Rightarrow> nat \<Rightarrow> nat \<Rightarrow> nat \<Rightarrow> nat set" where
  "disjoint_targets state y x d =
    (let n2 = 2 ^ st_n state;
         i1 = y * st_w state + x;
         i2 = nat (int i1 + adj_dy (adjthan ! d) * int (st_w state) + adj_dx (adjthan ! d))
     in if clues state ! i1 AND adj_f (adjthan ! d) \<noteq> 0 then {}
        else if int x + adj_dx (adjthan ! d) < 0 \<or> int x + adj_dx (adjthan ! d) \<ge> int (st_w state) \<or>
                int y + adj_dy (adjthan ! d) < 0 \<or> int y + adj_dy (adjthan ! d) \<ge> int (st_h state)
        then {}
        else if clues state ! i2 AND adj_fo (adjthan ! d) \<noteq> 0 then {}
        else if known state ! i1 \<noteq> st_mask state ! i1 then {i1 * n2, i1 * n2 + (n2 - 1)}
        else if known state ! i2 \<noteq> st_mask state ! i2
        then {i2 * n2 + opt | opt. opt < n2 \<and> comparable (known state ! i1) opt}
        else {})"

text \<open>Every candidate left in the cube fits the bounds of its cell.\<close>

definition cube_synced :: "game_state \<Rightarrow> bool list \<Rightarrow> bool" where
  "cube_synced s c =
    (\<forall>i < st_w s * st_h s. \<forall>nj < 2 ^ st_n s.
       c ! (i * 2 ^ st_n s + nj) \<longrightarrow>
       bits_le (of_nat nj) (st_mask s ! i) \<and> bits_le (known s ! i) (of_nat nj))"

text \<open>
  The measure that bounds the solver's loop: the candidates left in the cube, the size
  of the upper bounds and what the lower bounds still lack.
\<close>

definition cube_size :: "bool list \<Rightarrow> nat" where
  "cube_size c = length (filter (\<lambda>b. b) c)"

definition bounds_size :: "game_state \<Rightarrow> nat" where
  "bounds_size s = sum_list (map unat (st_mask s)) + sum_list (map (\<lambda>k. unat (NOT k)) (known s))"

text \<open>
  How one step of a rule may move the pair of its progress counter and the board, or the
  cube: the counter never falls, the bounds (the cube) only tighten, the counter rises
  only with a strict gain in the measure, and for the board it stays put only if
  nothing changed.
\<close>

definition state_progress :: "nat \<times> game_state \<Rightarrow> nat \<times> game_state \<Rightarrow> bool" where
  "state_progress a a' =
    (tighter (snd a') (snd a) \<and> fst a \<le> fst a' \<and>
     (fst a' = fst a \<longrightarrow> snd a' = snd a) \<and>
     (fst a < fst a' \<longrightarrow> bounds_size (snd a') < bounds_size (snd a)))"

definition cube_progress :: "nat \<times> bool list \<Rightarrow> nat \<times> bool list \<Rightarrow> bool" where
  "cube_progress a a' =
    (cube_le (snd a') (snd a) \<and> fst a \<le> fst a' \<and>
     (fst a < fst a' \<longrightarrow> cube_size (snd a') < cube_size (snd a)))"

text \<open>
  Invariant of the loop of \<^verbatim>\<open>subsets_solve_single_position\<close> started on board \<open>s\<close>:
  every cell still has the bounds it had in \<open>s\<close> or has been set to a candidate that
  the cube allows there and that \<open>counts\<close> reports as placed nowhere; the counter is 0
  exactly as long as nothing has been set.
\<close>

definition placed :: "game_state \<Rightarrow> int list \<Rightarrow> bool list \<Rightarrow> game_state \<Rightarrow> nat \<Rightarrow> bool" where
  "placed s counts c t i =
    (\<exists>nj < 2 ^ st_n s. c ! (i * 2 ^ st_n s + nj) \<and> counts ! nj = 0 \<and>
       known t ! i = of_nat nj \<and> st_mask t ! i = of_nat nj)"

definition single_inv :: "game_state \<Rightarrow> int list \<Rightarrow> bool list \<Rightarrow> nat \<times> game_state \<Rightarrow> bool" where
  "single_inv s counts c a =
    (st_w (snd a) = st_w s \<and> st_h (snd a) = st_h s \<and> st_n (snd a) = st_n s \<and>
     clues (snd a) = clues s \<and> immutable (snd a) = immutable s \<and>
     completed (snd a) = completed s \<and> cheated (snd a) = cheated s \<and>
     length (known (snd a)) = length (known s) \<and> length (st_mask (snd a)) = length (st_mask s) \<and>
     (\<forall>i < st_w s * st_h s.
        (known (snd a) ! i = known s ! i \<and> st_mask (snd a) ! i = st_mask s ! i) \<or>
        placed s counts c (snd a) i) \<and>
     (fst a = 0 \<longrightarrow> snd a = s) \<and>
     (fst a \<noteq> 0 \<longrightarrow> (\<exists>i < st_w s * st_h s. placed s counts c (snd a) i)))"

section \<open>Moves\<close>


definition is_digit :: "char \<Rightarrow> bool" where
  "is_digit ch = (48 \<le> (of_char ch :: nat) \<and> (of_char ch :: nat) \<le> 57)"

definition digit_val :: "char \<Rightarrow> nat" where
  "digit_val ch = of_char ch - 48"

definition digit_char :: "nat \<Rightarrow> char" where
  "digit_char d = char_of (48 + d)"

definition is_space :: "char \<Rightarrow> bool" where
  "is_space ch = ((of_char ch :: nat) = 32 \<or> (9 \<le> (of_char ch :: nat) \<and> (of_char ch :: nat) \<le> 13))"

fun scan_digits :: "nat \<Rightarrow> string \<Rightarrow> nat \<times> string" where
  "scan_digits acc [] = (acc, [])"
| "scan_digits acc (ch # cs) =
    (if is_digit ch then scan_digits (10 * acc + digit_val ch) cs else (acc, ch # cs))"

text \<open>
  One \<^verbatim>\<open>%d\<close> conversion: white space, an optional sign, at least one digit. The result
  is the number written. It is the int that \<^verbatim>\<open>sscanf\<close> stores when the number fits an
  int (\<open>int_range\<close>); for any other number C leaves the conversion undefined (the C
  library at hand keeps the low 32 bits of a number that fits a long, so that
  \<^verbatim>\<open>4294967296\<close> is stored as 0), and what is proved about \<^verbatim>\<open>execute_move\<close> is proved
  of numbers that fit.
\<close>

definition scan_d :: "string \<Rightarrow> (int \<times> string) option" where
  "scan_d str =
    (let p = dropWhile is_space str;
         neg = (p \<noteq> [] \<and> hd p = CHR ''-'');
         q = (if p \<noteq> [] \<and> (hd p = CHR ''-'' \<or> hd p = CHR ''+'') then tl p else p)
     in if q = [] \<or> \<not> is_digit (hd q) then None
        else (let (v, rest) = scan_digits 0 q
              in Some (if neg then - int v else int v, rest)))"

text \<open>
  \<^verbatim>\<open>atoi\<close>, which is \<^verbatim>\<open>(int) strtol(str, NULL, 10)\<close>: 0 when no number is there;
  \<^verbatim>\<open>strtol\<close> returns a long (64 bits), \<^verbatim>\<open>LONG_MAX\<close> or \<^verbatim>\<open>LONG_MIN\<close> for a number beyond
  them, and the conversion to int keeps its low 32 bits.
\<close>

definition atoi :: "string \<Rightarrow> int" where
  "atoi str =
    (case scan_d str of
       None \<Rightarrow> 0
     | Some (v, rest) \<Rightarrow> sint (word_of_int (max (- (2 ^ 63)) (min (2 ^ 63 - 1) v)) :: uint))"

text \<open>\<^verbatim>\<open>sscanf(move, "%c%d,%d", &type, &pos, &n)\<close>; \<open>None\<close> when it does not
  return 3.\<close>

definition sscanf_move :: "string \<Rightarrow> (char \<times> int \<times> int) option" where
  "sscanf_move move =
    (case move of
       [] \<Rightarrow> None
     | type # r1 \<Rightarrow>
        (case scan_d r1 of
           None \<Rightarrow> None
         | Some (pos, r2) \<Rightarrow>
            (case r2 of
               [] \<Rightarrow> None
             | sep # r3 \<Rightarrow>
                if sep \<noteq> CHR '','' then None
                else (case scan_d r3 of
                        None \<Rightarrow> None
                      | Some (k, r4) \<Rightarrow> Some (type, pos, k)))))"

fun digits_of :: "nat \<Rightarrow> string" where
  "digits_of k = (if k < 10 then [digit_char k] else digits_of (k div 10) @ [digit_char (k mod 10)])"

declare digits_of.simps [simp del]

definition sprintf_d :: "int \<Rightarrow> string" where
  "sprintf_d k = (if k < 0 then CHR ''-'' # digits_of (nat (- k)) else digits_of (nat k))"

text \<open>
  The loop of the \<^verbatim>\<open>'S'\<close> branch of \<^verbatim>\<open>execute_move\<close>, over the cells still to fill. The
  C code steps over a separator after each number without looking at it; at the end of
  the string the model stays there.
\<close>

fun execute_solve_loop :: "nat list \<Rightarrow> string \<Rightarrow> game_state \<Rightarrow> game_state" where
  "execute_solve_loop [] p ret = ret"
| "execute_solve_loop (pos # rest) p ret =
    (if p = [] then ret
     else (let k1 = (of_int (atoi p) :: uint);
               p1 = drop 1 (dropWhile is_digit p);
               ret1 = ret\<lparr>known := (known ret)[pos := k1]\<rparr>;
               k2 = (of_int (atoi p1) :: uint);
               p2 = drop 1 (dropWhile is_digit p1);
               ret2 = ret1\<lparr>st_mask := (st_mask ret1)[pos := k2]\<rparr>
           in execute_solve_loop rest p2 ret2))"

text \<open>The \<^verbatim>\<open>switch (type)\<close> of \<^verbatim>\<open>execute_move\<close>; any other letter changes nothing.\<close>

definition apply_bit_move :: "char \<Rightarrow> nat \<Rightarrow> nat \<Rightarrow> game_state \<Rightarrow> game_state" where
  "apply_bit_move type pos k ret =
    (let b = (push_bit k 1 :: uint) in
     if type = CHR ''K''
     then ret\<lparr>known := (known ret)[pos := known ret ! pos OR b],
              st_mask := (st_mask ret)[pos := st_mask ret ! pos OR b]\<rparr>
     else if type = CHR ''C''
     then ret\<lparr>known := (known ret)[pos := known ret ! pos AND NOT b],
              st_mask := (st_mask ret)[pos := st_mask ret ! pos AND NOT b]\<rparr>
     else if type = CHR ''U''
     then ret\<lparr>known := (known ret)[pos := known ret ! pos AND NOT b],
              st_mask := (st_mask ret)[pos := st_mask ret ! pos OR b]\<rparr>
     else ret)"

text \<open>
  \<^verbatim>\<open>execute_move(state, move)\<close>. The result pairs the state the caller passed in, as it
  is after the call, with the returned state (\<open>None\<close> for \<^verbatim>\<open>NULL\<close>).
\<close>

definition execute_move :: "game_state \<Rightarrow> string \<Rightarrow> game_state \<times> game_state option" where
  "execute_move state move =
    (if move \<noteq> [] \<and> hd move = CHR ''S''
     then (state, Some (execute_solve_loop [0..<st_w state * st_h state] (tl move) (dup_game state)))
     else case sscanf_move move of
       None \<Rightarrow> (state, None)
     | Some (type, pos, k) \<Rightarrow>
        if pos < 0 \<or> pos \<ge> int (st_w state * st_h state) then (state, None)
        else if k < 0 \<or> k \<ge> int (st_n state) then (state, None)
        else if immutable state ! nat pos AND push_bit (nat k) 1 \<noteq> 0 then (state, None)
        else (let ret = apply_bit_move type (nat pos) (nat k) (dup_game state)
              in (state, Some (if fst (subsets_validate ret False False) = STATUS_COMPLETE
                               then ret\<lparr>completed := True\<rparr> else ret))))"

text \<open>The move string \<^verbatim>\<open>interpret_move\<close> builds with \<^verbatim>\<open>sprintf(buf, "%c%d,%d", ...)\<close>.\<close>

definition move_string :: "char \<Rightarrow> int \<Rightarrow> int \<Rightarrow> string" where
  "move_string type pos k = type # sprintf_d pos @ CHR '','' # sprintf_d k"



section \<open>Vocabulary for the claims about moves and flags\<close>

text \<open>The flags buffer the validator fills marks the edge from cell \<open>i\<close> in direction \<open>d\<close>.\<close>

definition edge_flagged :: "game_state \<Rightarrow> bool \<Rightarrow> nat \<Rightarrow> nat \<Rightarrow> bool" where
  "edge_flagged s hascounts i d =
    (case fst (snd (subsets_validate s True hascounts)) of
       None \<Rightarrow> False
     | Some flags \<Rightarrow> flags ! i AND adj_f (adjthan ! d) \<noteq> 0)"

text \<open>The invariant \<open>known[i] \<subseteq> mask[i]\<close> of the data model, for every cell.\<close>

definition bounds_ordered :: "game_state \<Rightarrow> bool" where
  "bounds_ordered s =
    (\<forall>i \<in> {0..<st_w s * st_h s}. known s ! i AND st_mask s ! i = known s ! i)"

section \<open>The solve move\<close>





section \<open>Reading a game description\<close>

text \<open>
  The inner loop of \<^verbatim>\<open>attempt_load_game\<close> that reads the arrow letters of a cell into
  its clue \<open>c\<close>. \<open>Inl\<close> is an error message, \<open>Inr\<close> the clue with the text that is left.
  The \<^verbatim>\<open>switch\<close> of the source has a \<^verbatim>\<open>default\<close> branch, kept here as the last case.
\<close>

fun load_flags :: "uint \<Rightarrow> string \<Rightarrow> string + uint \<times> string" where
  "load_flags c [] = Inr (c, [])"
| "load_flags c (ch # p) =
    (if ch = CHR ''U'' \<or> ch = CHR ''R'' \<or> ch = CHR ''D'' \<or> ch = CHR ''L''
     then (if ch = CHR ''U'' then load_flags (c OR F_ADJ_UP) p
           else if ch = CHR ''R'' then load_flags (c OR F_ADJ_RIGHT) p
           else if ch = CHR ''D'' then load_flags (c OR F_ADJ_DOWN) p
           else if ch = CHR ''L'' then load_flags (c OR F_ADJ_LEFT) p
           else Inl ''Expecting flag URDL in game description'')
     else Inr (c, ch # p))"

text \<open>
  The first part of the body of the \<^verbatim>\<open>while (*p)\<close> loop, on the text \<open>p\<close> (not empty) and
  the cell index \<open>i\<close>, with \<open>s = w * h\<close>: the value of the cell. The test \<^verbatim>\<open>num < 0\<close> of
  the source is on an unsigned number and never holds.
\<close>

definition load_value :: "nat \<Rightarrow> nat \<Rightarrow> nat \<Rightarrow> string \<Rightarrow> game_state \<Rightarrow> string + string \<times> game_state" where
  "load_value s n i p state =
    (if i \<ge> s then Inl ''Too much data to fill grid''
     else if is_digit (hd p)
     then (let num = (word_of_int (atoi p) :: uint)
           in if num > ALL_BITS n then Inl ''Out-of-range number in game description''
              else Inr (dropWhile is_digit p,
                        state\<lparr>known := (known state)[i := num],
                              st_mask := (st_mask state)[i := num],
                              immutable := (immutable state)[i := ALL_BITS n]\<rparr>))
     else if hd p = CHR ''_'' then Inr (tl p, state)
     else Inl ''Expecting number in game description'')"

text \<open>The whole body: the value, the arrow letters, the separator.\<close>

definition load_cell :: "nat \<Rightarrow> nat \<Rightarrow> nat \<Rightarrow> string \<Rightarrow> game_state \<Rightarrow> string + string \<times> game_state" where
  "load_cell s n i p state =
    (case load_value s n i p state of
       Inl e \<Rightarrow> Inl e
     | Inr (p1, state1) \<Rightarrow>
        (case load_flags (clues state1 ! i) p1 of
           Inl e \<Rightarrow> Inl e
         | Inr (c, p2) \<Rightarrow>
            if i + 1 < s \<and> (p2 = [] \<or> hd p2 \<noteq> CHR '','') then Inl ''Missing separator''
            else Inr (if p2 \<noteq> [] \<and> hd p2 = CHR '','' then tl p2 else p2,
                      state1\<lparr>clues := (clues state1)[i := c]\<rparr>)))"

lemma load_flags_length:
  "load_flags c p = Inr (c', p') \<Longrightarrow> length p' \<le> length p"
  by (induction c p rule: load_flags.induct) (auto split: if_splits)

lemma load_cell_length:
  assumes "load_cell s n i p state = Inr (p', state')" and "p \<noteq> []"
  shows "length p' < length p"
proof -
  obtain p1 state1 where v: "load_value s n i p state = Inr (p1, state1)"
    using assms(1) by (auto simp: load_cell_def split: sum.splits)
  obtain c p2 where f: "load_flags (clues state1 ! i) p1 = Inr (c, p2)"
    using assms(1) v by (auto simp: load_cell_def split: sum.splits)
  have "p1 = dropWhile is_digit p \<and> is_digit (hd p) \<or> p1 = tl p"
    using v by (auto simp: load_value_def Let_def split: if_splits)
  then have 1: "length p1 < length p"
  proof
    assume a: "p1 = dropWhile is_digit p \<and> is_digit (hd p)"
    obtain ch cs where p: "p = ch # cs"
      using assms(2) by (cases p) auto
    have "length (dropWhile is_digit cs) \<le> length cs"
      by (rule length_dropWhile_le)
    then show ?thesis
      using a p by simp
  next
    assume "p1 = tl p"
    then show ?thesis
      using assms(2) by (cases p) auto
  qed
  have 2: "length p2 \<le> length p1"
    using f by (rule load_flags_length)
  have "length p' \<le> length p2"
    using assms(1) v f by (cases p2) (auto simp: load_cell_def split: if_splits)
  then show ?thesis
    using 1 2 by simp
qed

text \<open>
  The \<^verbatim>\<open>while (*p)\<close> loop from cell \<open>i\<close> on; it returns the number of cells read with the
  board.
\<close>

function load_cells :: "nat \<Rightarrow> nat \<Rightarrow> nat \<Rightarrow> string \<Rightarrow> game_state \<Rightarrow> string + nat \<times> game_state" where
  "load_cells s n i p state =
    (if p = [] then Inr (i, state)
     else (case load_cell s n i p state of
             Inl e \<Rightarrow> Inl e
           | Inr (p', state') \<Rightarrow> load_cells s n (i + 1) p' state'))"
  by pat_completeness auto

termination
  by (relation "measure (\<lambda>(s, n, i, p, state). length p)") (auto simp: load_cell_length)

declare load_cells.simps [simp del]

text \<open>
  The loops that follow: an arrow must point at a cell of the grid, and the cell it
  points at must not point back. \<open>None\<close> is no error; the first error found is returned.
\<close>

definition check_flag :: "game_state \<Rightarrow> nat \<Rightarrow> nat \<Rightarrow> nat \<Rightarrow> nat \<Rightarrow> nat \<Rightarrow> string option \<Rightarrow> string option" where
  "check_flag state w h y x d err =
    (case err of
       Some e \<Rightarrow> Some e
     | None \<Rightarrow>
        if clues state ! (y * w + x) AND adj_f (adjthan ! d) \<noteq> 0
        then (let nx = int x + adj_dx (adjthan ! d);
                  ny = int y + adj_dy (adjthan ! d)
              in if nx < 0 \<or> ny < 0 \<or> nx \<ge> int w \<or> ny \<ge> int h then Some ''Flags go off grid''
                 else if clues state ! nat (ny * int w + nx) AND adj_fo (adjthan ! d) \<noteq> 0
                 then Some ''Flags contradicting each other''
                 else None)
        else None)"

text \<open>
  \<^verbatim>\<open>attempt_load_game(state, desc)\<close>: \<open>Inl\<close> is the error message returned, \<open>Inr\<close> the
  board as loaded when \<^verbatim>\<open>NULL\<close> is returned. After an error the caller frees the board,
  which the model drops. The source takes its \<^verbatim>\<open>h\<close> from \<^verbatim>\<open>state->w\<close>.
\<close>

definition attempt_load_game :: "game_state \<Rightarrow> string \<Rightarrow> string + game_state" where
  "attempt_load_game state desc =
    (let w = st_w state; h = st_w state; n = st_n state
     in case load_cells (w * h) n 0 desc state of
          Inl e \<Rightarrow> Inl e
        | Inr (i, state') \<Rightarrow>
           if i < w * h then Inl ''Not enough data to fill grid''
           else (case for_edges w h (check_flag state' w h) None of
                   Some e \<Rightarrow> Inl e
                 | None \<Rightarrow> Inr state'))"

text \<open>The characters a description is made of, and the arrow letters among them.\<close>

definition flag_letter :: "char \<Rightarrow> bool" where
  "flag_letter ch = (ch = CHR ''U'' \<or> ch = CHR ''R'' \<or> ch = CHR ''D'' \<or> ch = CHR ''L'')"

definition desc_char :: "char \<Rightarrow> bool" where
  "desc_char ch = (is_digit ch \<or> ch = CHR ''_'' \<or> flag_letter ch \<or> ch = CHR '','')"

text \<open>
  \<open>loop_at s n a b\<close>: the \<^verbatim>\<open>while (*p)\<close> loop, started with the cell index, text and board
  \<open>a\<close>, comes to the top of its body with the cell index, text and board \<open>b\<close>.
\<close>

inductive loop_at :: "nat \<Rightarrow> nat \<Rightarrow> nat \<times> string \<times> game_state \<Rightarrow> nat \<times> string \<times> game_state \<Rightarrow> bool" where
  start: "loop_at s n a a"
| step: "loop_at s n a (i, p, state) \<Longrightarrow> p \<noteq> [] \<Longrightarrow> load_cell s n i p state = Inr (p', state') \<Longrightarrow>
    loop_at s n a (i + 1, p', state')"

section \<open>Boards used as examples\<close>

text \<open>
  Scenario T1 of the specification: the values 0..15 in row-major order, every cell
  given, with the arrows the generator would draw for this layout.
\<close>

definition identity_board :: game_state where
  "identity_board =
    \<lparr>st_w = 4, st_h = 4, st_n = 4,
     clues = [0, 8, 0, 8, 1, 9, 1, 9, 0, 8, 0, 8, 1, 9, 1, 9],
     immutable = replicate 16 15,
     known = [0, 1, 2, 3, 4, 5, 6, 7, 8, 9, 10, 11, 12, 13, 14, 15],
     st_mask = [0, 1, 2, 3, 4, 5, 6, 7, 8, 9, 10, 11, 12, 13, 14, 15],
     completed = False, cheated = False\<rparr>"

text \<open>
  The same arrows with nothing given, in the middle of play: the player has entered the
  value 1 in cells 0 and 1 and the value 2 in cell 2; the other cells are untouched.
\<close>

definition doubled_board :: game_state where
  "doubled_board =
    identity_board\<lparr>immutable := replicate 16 0,
      known := [1, 1, 2] @ replicate 13 0,
      st_mask := [1, 1, 2] @ replicate 13 15\<rparr>"

text \<open>
  Again in the middle of play: cell 0 holds 2 and cell 1 holds 1, although cell 1
  carries an arrow to the left; the other cells are untouched.
\<close>

definition broken_arrow_board :: game_state where
  "broken_arrow_board =
    identity_board\<lparr>immutable := replicate 16 0,
      known := [2, 1] @ replicate 14 0,
      st_mask := [2, 1] @ replicate 14 15\<rparr>"

text \<open>One move before the end: only bit 0 of cell 0 is still open.\<close>

definition last_bit_board :: game_state where
  "last_bit_board =
    identity_board\<lparr>immutable := 0 # replicate 15 15,
      st_mask := [1, 1, 2, 3, 4, 5, 6, 7, 8, 9, 10, 11, 12, 13, 14, 15]\<rparr>"


text \<open>
  Scenario T3 of the specification: no arrow anywhere, cell 5 given as \<open>0b1100\<close>, every
  other cell blank.
\<close>

definition t3_board :: game_state where
  "t3_board =
    \<lparr>st_w = 4, st_h = 4, st_n = 4,
     clues = replicate 16 0,
     immutable = (replicate 16 0)[5 := 15],
     known = (replicate 16 0)[5 := 12],
     st_mask = (replicate 16 15)[5 := 12],
     completed = False, cheated = False\<rparr>"


text \<open>The identity board with scenario T2's hole: cell 5 is blank.\<close>

definition t2_board :: game_state where
  "t2_board =
    identity_board\<lparr>immutable := (replicate 16 15)[5 := 0],
      known := (known identity_board)[5 := 0],
      st_mask := (st_mask identity_board)[5 := 15]\<rparr>"


section \<open>Decimal numbers: writing and reading back\<close>

lemma is_digit_digit_char: "d < 10 \<Longrightarrow> is_digit (digit_char d)"
  by (simp add: is_digit_def digit_char_def)

lemma digit_val_digit_char: "d < 10 \<Longrightarrow> digit_val (digit_char d) = d"
  by (simp add: digit_val_def digit_char_def)

lemma digits_of_nonempty: "digits_of k \<noteq> []"
  by (subst digits_of.simps) simp

lemma digits_of_all_digits: "\<forall>ch \<in> set (digits_of k). is_digit ch"
proof (induction k rule: digits_of.induct)
  case (1 k)
  show ?case
  proof (cases "k < 10")
    case True
    then show ?thesis
      by (subst digits_of.simps) (simp add: is_digit_digit_char)
  next
    case False
    with 1 show ?thesis
      by (subst digits_of.simps) (simp add: is_digit_digit_char)
  qed
qed

lemma scan_digits_all:
  "\<forall>ch \<in> set xs. is_digit ch \<Longrightarrow>
   scan_digits acc (xs @ rest) = scan_digits (foldl (\<lambda>a ch. 10 * a + digit_val ch) acc xs) rest"
  by (induction xs arbitrary: acc) simp_all

lemma foldl_digits_of:
  "foldl (\<lambda>a ch. 10 * a + digit_val ch) acc (digits_of k) = acc * 10 ^ length (digits_of k) + k"
proof (induction k arbitrary: acc rule: digits_of.induct)
  case (1 k)
  show ?case
  proof (cases "k < 10")
    case True
    then show ?thesis
      by (subst (1 2) digits_of.simps) (simp add: digit_val_digit_char)
  next
    case False
    have "foldl (\<lambda>a ch. 10 * a + digit_val ch) acc (digits_of (k div 10) @ [digit_char (k mod 10)])
        = 10 * (acc * 10 ^ length (digits_of (k div 10)) + k div 10) + k mod 10"
      using 1 [OF False] by (simp add: digit_val_digit_char)
    also have "\<dots> = acc * 10 ^ length (digits_of (k div 10) @ [digit_char (k mod 10)]) + k"
      by (simp add: algebra_simps)
    finally show ?thesis
      using False by (subst (1 2) digits_of.simps) simp
  qed
qed

lemma scan_digits_stop:
  "rest = [] \<or> \<not> is_digit (hd rest) \<Longrightarrow> scan_digits acc rest = (acc, rest)"
  by (cases rest) auto

lemma scan_digits_digits_of:
  "rest = [] \<or> \<not> is_digit (hd rest) \<Longrightarrow> scan_digits 0 (digits_of k @ rest) = (k, rest)"
  by (simp add: scan_digits_all digits_of_all_digits foldl_digits_of scan_digits_stop)

lemma hd_digits_of_digit: "is_digit (hd (digits_of k))"
  using digits_of_all_digits [of k] digits_of_nonempty [of k] by (cases "digits_of k") auto

lemma is_digit_not_space: "is_digit ch \<Longrightarrow> \<not> is_space ch"
  by (auto simp: is_digit_def is_space_def)

lemma is_digit_not_sign: "is_digit ch \<Longrightarrow> ch \<noteq> CHR ''-'' \<and> ch \<noteq> CHR ''+''"
  by (auto simp: is_digit_def)

lemma scan_d_nat:
  assumes "rest = [] \<or> \<not> is_digit (hd rest)"
  shows "scan_d (digits_of k @ rest) = Some (int k, rest)"
proof -
  obtain ch cs where d: "digits_of k = ch # cs"
    using digits_of_nonempty [of k] by (cases "digits_of k") auto
  have dig: "is_digit ch"
    using hd_digits_of_digit [of k] d by simp
  have "scan_digits 0 ((ch # cs) @ rest) = (k, rest)"
    using scan_digits_digits_of [OF assms, of k] d by simp
  then show ?thesis
    using dig is_digit_not_space [OF dig] is_digit_not_sign [OF dig] d
    by (simp add: scan_d_def)
qed

lemma scan_d_sprintf_d:
  assumes "rest = [] \<or> \<not> is_digit (hd rest)"
  shows "scan_d (sprintf_d k @ rest) = Some (k, rest)"
proof (cases "k < 0")
  case False
  then show ?thesis
    using scan_d_nat [OF assms, of "nat k"] by (simp add: sprintf_d_def)
next
  case True
  obtain ch cs where d: "digits_of (nat (- k)) = ch # cs"
    using digits_of_nonempty [of "nat (- k)"] by (cases "digits_of (nat (- k))") auto
  have dig: "is_digit ch"
    using hd_digits_of_digit [of "nat (- k)"] d by simp
  have "scan_digits 0 ((ch # cs) @ rest) = (nat (- k), rest)"
    using scan_digits_digits_of [OF assms, of "nat (- k)"] d by simp
  then show ?thesis
    using True dig d by (simp add: scan_d_def sprintf_d_def is_space_def)
qed

lemma sscanf_move_move_string: "sscanf_move (move_string type pos k) = Some (type, pos, k)"
proof -
  have 1: "scan_d (sprintf_d pos @ CHR '','' # sprintf_d k) = Some (pos, CHR '','' # sprintf_d k)"
    by (rule scan_d_sprintf_d) (simp add: is_digit_def)
  have 2: "scan_d (sprintf_d k) = Some (k, [])"
    using scan_d_sprintf_d [of "[]" k] by simp
  show ?thesis
    by (simp add: sscanf_move_def move_string_def 1 2)
qed

section \<open>Player moves\<close>

lemma execute_move_bit_move:
  assumes "type \<noteq> CHR ''S''"
  shows "execute_move state (move_string type pos k) =
    (if pos < 0 \<or> pos \<ge> int (st_w state * st_h state) then (state, None)
     else if k < 0 \<or> k \<ge> int (st_n state) then (state, None)
     else if immutable state ! nat pos AND push_bit (nat k) 1 \<noteq> 0 then (state, None)
     else (let ret = apply_bit_move type (nat pos) (nat k) (dup_game state)
           in (state, Some (if fst (subsets_validate ret False False) = STATUS_COMPLETE
                            then ret\<lparr>completed := True\<rparr> else ret))))"
proof -
  have "move_string type pos k \<noteq> [] \<and> hd (move_string type pos k) = type"
    by (simp add: move_string_def)
  then show ?thesis
    using assms by (simp add: execute_move_def sscanf_move_move_string)
qed


section \<open>What the validator computes\<close>

lemma validate_unresolved_eq:
  "validate_unresolved s nobuf is ret =
    (if \<exists>i \<in> set is. \<not> resolved s i
     then (if nobuf then None else Some STATUS_UNFINISHED) else Some ret)"
  by (induction "is" arbitrary: ret) (auto simp: resolved_def)

subsection \<open>Counting\<close>

lemma occ_in_Nil: "occ_in s [] v = 0"
  by (simp add: occ_in_def)

lemma occ_in_Cons:
  "occ_in s (i # is) v =
    (if resolved s i \<and> unat (known s ! i) = v then Suc (occ_in s is v) else occ_in s is v)"
  by (simp add: occ_in_def)

lemma validate_counts_length:
  "length (snd (validate_counts s hf is acc)) = length (snd acc)"
  by (induction s hf "is" acc rule: validate_counts.induct) (auto simp: Let_def)

lemma validate_counts_break_status:
  "fst (validate_counts s False is acc) = fst (validate_counts s True is acc)"
proof (induction "is" arbitrary: acc)
  case Nil
  then show ?case by simp
next
  case (Cons i "is")
  obtain ret c where acc: "acc = (ret, c)" by (cases acc)
  have inv_stays: "\<And>js c'. fst (validate_counts s True js (STATUS_INVALID, c')) = STATUS_INVALID"
  proof -
    fix js c'
    show "fst (validate_counts s True js (STATUS_INVALID, c')) = STATUS_INVALID"
      by (induction js arbitrary: c') (auto simp: Let_def)
  qed
  show ?case
    unfolding acc using Cons.IH by (auto simp: Let_def inv_stays)
qed

lemma validate_counts_break_same:
  "fst (validate_counts s False is acc) \<noteq> STATUS_INVALID \<Longrightarrow>
   validate_counts s False is acc = validate_counts s True is acc"
proof (induction "is" arbitrary: acc)
  case Nil
  then show ?case by simp
next
  case (Cons i "is")
  obtain ret c where acc: "acc = (ret, c)" by (cases acc)
  show ?case
    using Cons.prems Cons.IH unfolding acc
    by (auto simp: Let_def split: if_splits)
qed

lemma validate_counts_full:
  assumes "\<forall>i \<in> set is. resolved s i \<longrightarrow> unat (known s ! i) < length c"
  shows "validate_counts s True is (ret, c) =
    (if ret = STATUS_INVALID \<or> (\<exists>v < length c. 1 \<le> occ_in s is v \<and> 1 < c ! v + int (occ_in s is v))
     then STATUS_INVALID else ret,
     map (\<lambda>v. c ! v + int (occ_in s is v)) [0..<length c])"
  using assms
proof (induction "is" arbitrary: ret c)
  case Nil
  then show ?case
    by (simp add: occ_in_Nil map_nth)
next
  case (Cons i "is")
  show ?case
  proof (cases "resolved s i")
    case False
    then have "validate_counts s True (i # is) (ret, c) = validate_counts s True is (ret, c)"
      by (simp add: resolved_def)
    moreover have "\<And>v. occ_in s (i # is) v = occ_in s is v"
      using False by (simp add: occ_in_Cons)
    ultimately show ?thesis
      using Cons.IH [of c ret] Cons.prems by simp
  next
    case True
    define v where "v = unat (known s ! i)"
    define c1 where "c1 = c[v := c ! v + 1]"
    define ret1 where "ret1 = (if 1 < c1 ! v then STATUS_INVALID else ret)"
    have v: "v < length c"
      using True Cons.prems by (simp add: v_def)
    have len: "length c1 = length c"
      by (simp add: c1_def)
    have step: "validate_counts s True (i # is) (ret, c) = validate_counts s True is (ret1, c1)"
      using True by (simp add: resolved_def Let_def v_def c1_def ret1_def)
    have occ: "\<And>u. occ_in s (i # is) u = (if u = v then Suc (occ_in s is u) else occ_in s is u)"
      using True by (auto simp: occ_in_Cons v_def)
    have c1: "\<And>u. u < length c \<Longrightarrow> c1 ! u = (if u = v then c ! u + 1 else c ! u)"
      by (simp add: c1_def nth_list_update)
    have sum: "\<And>u. u < length c \<Longrightarrow> c1 ! u + int (occ_in s is u) = c ! u + int (occ_in s (i # is) u)"
      by (simp add: c1 occ)
    have ih: "validate_counts s True is (ret1, c1) =
      (if ret1 = STATUS_INVALID \<or> (\<exists>u < length c1. 1 \<le> occ_in s is u \<and> 1 < c1 ! u + int (occ_in s is u))
       then STATUS_INVALID else ret1,
       map (\<lambda>u. c1 ! u + int (occ_in s is u)) [0..<length c1])"
      using Cons.prems by (intro Cons.IH) (simp add: len)
    have counts: "map (\<lambda>u. c1 ! u + int (occ_in s is u)) [0..<length c1]
        = map (\<lambda>u. c ! u + int (occ_in s (i # is) u)) [0..<length c]"
      by (simp add: len sum)
    have stat: "(ret1 = STATUS_INVALID \<or> (\<exists>u < length c1. 1 \<le> occ_in s is u \<and> 1 < c1 ! u + int (occ_in s is u)))
        = (ret = STATUS_INVALID \<or> (\<exists>u < length c. 1 \<le> occ_in s (i # is) u \<and> 1 < c ! u + int (occ_in s (i # is) u)))"
      (is "?L = ?R")
    proof
      assume ?L
      then consider "ret = STATUS_INVALID" | "1 < c1 ! v"
        | u where "u < length c" "1 \<le> occ_in s is u" "1 < c1 ! u + int (occ_in s is u)"
        by (auto simp: ret1_def len split: if_splits)
      then show ?R
      proof cases
        case 1
        then show ?thesis by simp
      next
        case 2
        then have "1 \<le> occ_in s (i # is) v \<and> 1 < c ! v + int (occ_in s (i # is) v)"
          using v by (simp add: c1 occ)
        then show ?thesis using v by blast
      next
        case 3
        then have "1 \<le> occ_in s (i # is) u \<and> 1 < c ! u + int (occ_in s (i # is) u)"
          using sum [of u] by (simp add: occ)
        then show ?thesis using 3(1) by blast
      qed
    next
      assume ?R
      then consider "ret = STATUS_INVALID"
        | u where "u < length c" "1 \<le> occ_in s (i # is) u" "1 < c ! u + int (occ_in s (i # is) u)"
        by auto
      then show ?L
      proof cases
        case 1
        then show ?thesis by (simp add: ret1_def)
      next
        case 2
        show ?thesis
        proof (cases "1 \<le> occ_in s is u")
          case True
          then show ?thesis using 2 sum [of u] len by auto
        next
          case False
          then have "u = v" "occ_in s is u = 0"
            using 2(2) by (auto simp: occ split: if_splits)
          then have "1 < c1 ! v"
            using 2(3) v by (simp add: c1 occ)
          then show ?thesis by (simp add: ret1_def)
        qed
      qed
    qed
    have keep: "ret1 \<noteq> STATUS_INVALID \<Longrightarrow> ret1 = ret"
      by (simp add: ret1_def split: if_splits)
    show ?thesis
    proof (cases "ret = STATUS_INVALID \<or> (\<exists>u < length c. 1 \<le> occ_in s (i # is) u \<and> 1 < c ! u + int (occ_in s (i # is) u))")
      case True
      then show ?thesis
        unfolding step ih counts stat by simp
    next
      case False
      then have "ret1 \<noteq> STATUS_INVALID"
        using stat by blast
      then have "ret1 = ret"
        by (rule keep)
      then show ?thesis
        using False unfolding step ih counts stat by auto
    qed
  qed
qed


lemma occ_in_card:
  "occ_in s [0..<k] v = card {i. i < k \<and> resolved s i \<and> unat (known s ! i) = v}"
proof -
  have "{x. resolved s x \<and> unat (known s ! x) = v} \<inter> set [0..<k]
      = {i. i < k \<and> resolved s i \<and> unat (known s ! i) = v}"
    by auto
  then show ?thesis
    by (simp add: occ_in_def distinct_length_filter)
qed

lemma has_duplicate_occ:
  assumes "countable_board s"
  shows "has_duplicate s = (\<exists>v < st_w s * st_h s. 1 < occ_in s [0..<st_w s * st_h s] v)"
proof
  assume "has_duplicate s"
  then obtain i j where ij: "i < st_w s * st_h s" "j < st_w s * st_h s" "i \<noteq> j"
      "resolved s i" "resolved s j" "known s ! i = known s ! j"
    by (auto simp: has_duplicate_def)
  let ?v = "unat (known s ! i)"
  let ?S = "{i. i < st_w s * st_h s \<and> resolved s i \<and> unat (known s ! i) = ?v}"
  have v: "?v < st_w s * st_h s"
    using assms ij by (simp add: countable_board_def)
  have "finite ?S" by simp
  moreover have "i \<in> ?S" "j \<in> ?S"
    using ij by simp_all
  ultimately have "\<not> card ?S \<le> Suc 0"
    using ij(3) by (auto simp: card_le_Suc0_iff_eq)
  then show "\<exists>v < st_w s * st_h s. 1 < occ_in s [0..<st_w s * st_h s] v"
    using v by (auto simp: occ_in_card)
next
  assume "\<exists>v < st_w s * st_h s. 1 < occ_in s [0..<st_w s * st_h s] v"
  then obtain v where v: "1 < occ_in s [0..<st_w s * st_h s] v"
    by blast
  let ?S = "{i. i < st_w s * st_h s \<and> resolved s i \<and> unat (known s ! i) = v}"
  have "finite ?S" by simp
  moreover have "\<not> card ?S \<le> Suc 0"
    using v by (simp add: occ_in_card)
  ultimately obtain a b where ab: "a \<in> ?S" "b \<in> ?S" "a \<noteq> b"
    by (auto simp: card_le_Suc0_iff_eq)
  then have "known s ! a = known s ! b"
    by (simp add: word_unat_eq_iff)
  then have "a \<in> {0..<st_w s * st_h s} \<and> b \<in> {0..<st_w s * st_h s} \<and> a \<noteq> b \<and>
      resolved s a \<and> resolved s b \<and> known s ! a = known s ! b"
    using ab by simp
  then show "has_duplicate s"
    unfolding has_duplicate_def by blast
qed

subsection \<open>The arrow loops: the status\<close>

lemma validate_dir_eq:
  "validate_dir s y x d acc =
    (if dir_check s y x d then flag_edge (y * st_w s + x) (adj_f (adjthan ! d)) acc else acc)"
  by (simp add: validate_dir_def dir_check_def Let_def)

lemma validate_dir_fst:
  "fst (validate_dir s y x d acc) = (if dir_check s y x d then STATUS_INVALID else fst acc)"
  by (simp add: validate_dir_eq flag_edge_def)

lemma validate_dir_snd_none:
  "(snd (validate_dir s y x d acc) = None) = (snd acc = None)"
  by (simp add: validate_dir_eq flag_edge_def)

lemma fold_dirs_status:
  "fst (fold (validate_dir s y x) ds acc) =
    (if \<exists>d \<in> set ds. dir_check s y x d then STATUS_INVALID else fst acc)"
  by (induction ds arbitrary: acc) (simp_all add: validate_dir_fst)

lemma fold_dirs_none:
  "(snd (fold (validate_dir s y x) ds acc) = None) = (snd acc = None)"
  by (induction ds arbitrary: acc) (simp_all add: validate_dir_snd_none)

lemma validate_row_status:
  "fst (validate_row s y xs acc) =
    (if fst acc = STATUS_INVALID then STATUS_INVALID
     else if \<exists>x \<in> set xs. resolved s (y * st_w s + x) \<and> (\<exists>d \<in> {0..<4}. dir_check s y x d)
     then STATUS_INVALID else fst acc)"
proof (induction xs arbitrary: acc)
  case Nil
  then show ?case by simp
next
  case (Cons x xs)
  show ?case
    by (auto simp: Cons.IH fold_dirs_status resolved_def)
qed

lemma validate_row_none:
  "(snd (validate_row s y xs acc) = None) = (snd acc = None)"
  by (induction xs arbitrary: acc) (simp_all add: fold_dirs_none)

lemma fold_rows_status:
  "fst (fold (\<lambda>y. validate_row s y xs) ys acc) =
    (if fst acc = STATUS_INVALID then STATUS_INVALID
     else if \<exists>y \<in> set ys. \<exists>x \<in> set xs. resolved s (y * st_w s + x) \<and> (\<exists>d \<in> {0..<4}. dir_check s y x d)
     then STATUS_INVALID else fst acc)"
proof (induction ys arbitrary: acc)
  case Nil
  then show ?case by simp
next
  case (Cons y ys)
  show ?case
    by (auto simp: Cons.IH validate_row_status)
qed

lemma fold_rows_none:
  "(snd (fold (\<lambda>y. validate_row s y xs) ys acc) = None) = (snd acc = None)"
  by (induction ys arbitrary: acc) (simp_all add: validate_row_none)


subsection \<open>The test of the loop body and the violated edges\<close>

lemma dir_cases:
  assumes "d < (4::nat)"
  obtains "d = 0" | "d = 1" | "d = 2" | "d = 3"
  using assms by linarith

lemma adjthan_nth:
  "adjthan ! 0 = \<lparr>adj_f = 1, adj_fo = 4, adj_dx = 0, adj_dy = -1, adj_c = CHR ''^'', adj_enc = CHR ''U''\<rparr>"
  "adjthan ! Suc 0 = \<lparr>adj_f = 2, adj_fo = 8, adj_dx = 1, adj_dy = 0, adj_c = CHR ''>'', adj_enc = CHR ''R''\<rparr>"
  "adjthan ! 2 = \<lparr>adj_f = 4, adj_fo = 1, adj_dx = 0, adj_dy = 1, adj_c = CHR ''v'', adj_enc = CHR ''D''\<rparr>"
  "adjthan ! 3 = \<lparr>adj_f = 8, adj_fo = 2, adj_dx = -1, adj_dy = 0, adj_c = CHR ''<'', adj_enc = CHR ''L''\<rparr>"
  by (simp_all add: adjthan_def F_ADJ_UP_def F_ADJ_RIGHT_def F_ADJ_DOWN_def F_ADJ_LEFT_def
      numeral_3_eq_3 numeral_2_eq_2)

lemma opposite_simps: "opposite 0 = 2" "opposite (Suc 0) = 3" "opposite 2 = 0" "opposite 3 = Suc 0"
  by (simp_all add: opposite_def)

lemma opposite_lt: "d < 4 \<Longrightarrow> opposite d < 4"
  by (simp add: opposite_def)

lemma adj_f_opposite: "d < 4 \<Longrightarrow> adj_f (adjthan ! opposite d) = adj_fo (adjthan ! d)"
  by (erule dir_cases) (simp_all add: adjthan_nth opposite_simps)

lemma adj_fo_opposite: "d < 4 \<Longrightarrow> adj_fo (adjthan ! opposite d) = adj_f (adjthan ! d)"
  by (erule dir_cases) (simp_all add: adjthan_nth opposite_simps)

lemma cell_div_mod:
  "x < k \<Longrightarrow> (y * k + x) div k = y"
  "x < k \<Longrightarrow> (y * k + x) mod k = (x::nat)"
  by simp_all

lemma dir_check_violated:
  assumes "x < st_w s" "d < 4" "resolved s (y * st_w s + x)" "dir_check s y x d"
  shows "edge_violated s (y * st_w s + x) d"
  using assms
  by (auto simp: edge_violated_def neighbour_def dir_check_def Let_def
      resolved_def arrow_def adj_f_opposite)

lemma violated_dir_check:
  assumes i: "i < st_w s * st_h s" and d: "d < 4" and v: "edge_violated s i d"
  shows "\<exists>y \<in> {0..<st_h s}. \<exists>x \<in> {0..<st_w s}.
           resolved s (y * st_w s + x) \<and> (\<exists>d' \<in> {0..<4}. dir_check s y x d')"
proof -
  have w: "0 < st_w s"
    using i by (cases "st_w s") auto
  define x where "x = i mod st_w s"
  define y where "y = i div st_w s"
  have x: "x < st_w s" using w by (simp add: x_def)
  have y: "y < st_h s" using i by (simp add: y_def less_mult_imp_div_less mult.commute)
  have ixy: "i = y * st_w s + x" by (simp add: x_def y_def)
  obtain j where j: "neighbour s i d = Some j"
    using v by (auto simp: edge_violated_def split: option.splits)
  define x2 where "x2 = int x + adj_dx (adjthan ! d)"
  define y2 where "y2 = int y + adj_dy (adjthan ! d)"
  have grid: "0 \<le> x2" "x2 < int (st_w s)" "0 \<le> y2" "y2 < int (st_h s)"
    and jxy: "j = nat y2 * st_w s + nat x2"
    using j by (auto simp: neighbour_def Let_def x_def y_def x2_def y2_def split: if_splits)
  have ri: "resolved s i" and rj: "resolved s j"
    using v j by (auto simp: edge_violated_def)
  show ?thesis
  proof (cases "arrow s i d \<or> \<not> (x2 < int x \<or> y2 < int y)")
    case True
    have "dir_check s y x d"
      using v j True grid ri rj adj_f_opposite [OF d]
      unfolding edge_violated_def dir_check_def Let_def
      by (auto simp: ixy [symmetric] jxy [symmetric] x2_def [symmetric] y2_def [symmetric]
          resolved_def arrow_def)
    then have "y \<in> {0..<st_h s} \<and> x \<in> {0..<st_w s} \<and> resolved s (y * st_w s + x) \<and>
        d \<in> {0..<4} \<and> dir_check s y x d"
      using x y d ri ixy by simp
    then show ?thesis
      by blast
  next
    case False
    then have na: "\<not> arrow s i d" and earlier: "x2 < int x \<or> y2 < int y"
      by auto
    have nb: "\<not> arrow s j (opposite d)"
      and cmp: "known s ! i AND known s ! j = known s ! j \<or> known s ! i AND known s ! j = known s ! i"
      using v j na by (auto simp: edge_violated_def Let_def)
    have coords: "int (nat x2) + adj_dx (adjthan ! opposite d) = int x"
      "int (nat y2) + adj_dy (adjthan ! opposite d) = int y"
      using d grid by (auto elim!: dir_cases simp: x2_def y2_def adjthan_nth opposite_simps)
    have later: "\<not> (int x < int (nat x2) \<or> int y < int (nat y2))"
      using d grid earlier by (auto elim!: dir_cases simp: x2_def y2_def adjthan_nth)
    have "dir_check s (nat y2) (nat x2) (opposite d)"
      using na nb cmp grid ri rj x y later
      unfolding dir_check_def Let_def coords
      by (auto simp: ixy [symmetric] jxy [symmetric] resolved_def arrow_def
          adj_fo_opposite [OF d] and.commute)
    moreover have "nat y2 < st_h s" "nat x2 < st_w s"
      using grid by auto
    ultimately have "nat y2 \<in> {0..<st_h s} \<and> nat x2 \<in> {0..<st_w s} \<and>
        resolved s (nat y2 * st_w s + nat x2) \<and>
        opposite d \<in> {0..<4} \<and> dir_check s (nat y2) (nat x2) (opposite d)"
      using rj jxy opposite_lt [OF d] by simp
    then show ?thesis
      by blast
  qed
qed

lemma has_violation_iff:
  "(\<exists>y \<in> {0..<st_h s}. \<exists>x \<in> {0..<st_w s}.
      resolved s (y * st_w s + x) \<and> (\<exists>d \<in> {0..<4}. dir_check s y x d)) = has_violation s"
proof
  assume "\<exists>y \<in> {0..<st_h s}. \<exists>x \<in> {0..<st_w s}.
      resolved s (y * st_w s + x) \<and> (\<exists>d \<in> {0..<4}. dir_check s y x d)"
  then obtain y x d where *: "y < st_h s" "x < st_w s" "d < 4"
      "resolved s (y * st_w s + x)" "dir_check s y x d"
    by auto
  have "y * st_w s + x < st_w s * st_h s"
  proof -
    have "y * st_w s + x < y * st_w s + st_w s" using *(2) by simp
    also have "\<dots> = Suc y * st_w s" by simp
    also have "\<dots> \<le> st_h s * st_w s" using *(1) by (intro mult_le_mono1) simp
    finally show ?thesis by (simp add: mult.commute)
  qed
  moreover have "edge_violated s (y * st_w s + x) d"
    using * by (intro dir_check_violated)
  ultimately have "y * st_w s + x \<in> {0..<st_w s * st_h s} \<and> d \<in> {0..<4} \<and>
      edge_violated s (y * st_w s + x) d"
    using *(3) by simp
  then show "has_violation s"
    unfolding has_violation_def by blast
next
  assume "has_violation s"
  then obtain i d where "i < st_w s * st_h s" "d < 4" "edge_violated s i d"
    by (auto simp: has_violation_def)
  then show "\<exists>y \<in> {0..<st_h s}. \<exists>x \<in> {0..<st_w s}.
      resolved s (y * st_w s + x) \<and> (\<exists>d \<in> {0..<4}. dir_check s y x d)"
    by (rule violated_dir_check)
qed


subsection \<open>The status and the counts\<close>

lemma subsets_validate_unfold:
  "subsets_validate s hf hc =
    (if \<not> hf \<and> \<not> hc \<and> has_unresolved s then (STATUS_UNFINISHED, None, None)
     else (let k = st_w s * st_h s;
               ret0 = (if has_unresolved s then STATUS_UNFINISHED else STATUS_COMPLETE);
               vc = validate_counts s hf [0..<k] (ret0, replicate k 0);
               va = validate_arrows s (fst vc, if hf then Some (replicate k 0) else None)
           in (fst va, snd va, if hc then Some (snd vc) else None)))"
  by (auto simp: subsets_validate_def validate_unresolved_eq has_unresolved_def Let_def split_beta)

lemma validate_counts_board:
  assumes "countable_board s"
  shows "validate_counts s True [0..<st_w s * st_h s] (ret, replicate (st_w s * st_h s) 0) =
    (if ret = STATUS_INVALID \<or> has_duplicate s then STATUS_INVALID else ret,
     map (\<lambda>v. int (occurrences s v)) [0..<st_w s * st_h s])"
proof -
  let ?k = "st_w s * st_h s"
  have inrange: "\<forall>i \<in> set [0..<?k]. resolved s i \<longrightarrow> unat (known s ! i) < length (replicate ?k (0::int))"
    using assms by (simp add: countable_board_def)
  have dup: "(\<exists>v < ?k. 1 \<le> occ_in s [0..<?k] v \<and> 1 < replicate ?k (0::int) ! v + int (occ_in s [0..<?k] v))
      = has_duplicate s"
    unfolding has_duplicate_occ [OF assms] by auto
  have cnt: "map (\<lambda>v. replicate ?k (0::int) ! v + int (occ_in s [0..<?k] v)) [0..<?k]
      = map (\<lambda>v. int (occurrences s v)) [0..<?k]"
    by (simp add: occurrences_def occ_in_def)
  show ?thesis
    using validate_counts_full [OF inrange, of ret] dup cnt by simp
qed

lemma validate_counts_board_status:
  assumes "countable_board s"
  shows "fst (validate_counts s hf [0..<st_w s * st_h s] (ret, replicate (st_w s * st_h s) 0)) =
    (if ret = STATUS_INVALID \<or> has_duplicate s then STATUS_INVALID else ret)"
proof (cases hf)
  case True
  then show ?thesis
    by (simp add: validate_counts_board [OF assms])
next
  case False
  then show ?thesis
    using validate_counts_break_status [of s "[0..<st_w s * st_h s]" "(ret, replicate (st_w s * st_h s) 0)"]
    by (simp add: validate_counts_board [OF assms])
qed

lemma validate_arrows_status:
  "fst (validate_arrows s acc) =
    (if fst acc = STATUS_INVALID \<or> has_violation s then STATUS_INVALID else fst acc)"
proof -
  have "(\<exists>y \<in> set [0..<st_h s]. \<exists>x \<in> set [0..<st_w s].
      resolved s (y * st_w s + x) \<and> (\<exists>d \<in> {0..<4}. dir_check s y x d)) = has_violation s"
    using has_violation_iff [of s] by simp
  then show ?thesis
    unfolding validate_arrows_def fold_rows_status by auto
qed

lemma subsets_validate_status:
  assumes "countable_board s"
  shows "fst (subsets_validate s hf hc) =
    (if \<not> hf \<and> \<not> hc \<and> has_unresolved s then STATUS_UNFINISHED
     else if has_duplicate s \<or> has_violation s then STATUS_INVALID
     else if has_unresolved s then STATUS_UNFINISHED
     else STATUS_COMPLETE)"
  by (simp add: subsets_validate_unfold Let_def validate_arrows_status
      validate_counts_board_status [OF assms])

lemma subsets_validate_counts:
  assumes "countable_board s" and "hf \<or> \<not> has_duplicate s"
  shows "snd (snd (subsets_validate s hf True)) =
    Some (map (\<lambda>v. int (occurrences s v)) [0..<st_w s * st_h s])"
proof -
  let ?k = "st_w s * st_h s"
  let ?ret0 = "if has_unresolved s then STATUS_UNFINISHED else STATUS_COMPLETE"
  have "validate_counts s hf [0..<?k] (?ret0, replicate ?k 0)
      = validate_counts s True [0..<?k] (?ret0, replicate ?k 0)"
  proof (cases hf)
    case True
    then show ?thesis by simp
  next
    case False
    then have "fst (validate_counts s False [0..<?k] (?ret0, replicate ?k 0)) \<noteq> STATUS_INVALID"
      using assms(2) validate_counts_board_status [OF assms(1), of False ?ret0] by auto
    then show ?thesis
      using False validate_counts_break_same by simp
  qed
  then show ?thesis
    by (simp add: subsets_validate_unfold Let_def validate_counts_board [OF assms(1)])
qed


subsection \<open>The arrow loops: the flags\<close>

lemma adj_f_bits:
  assumes "d < 4" "d' < 4"
  shows "(adj_f (adjthan ! d) AND adj_f (adjthan ! d') \<noteq> 0) = (d = d')"
proof -
  have "d \<in> {0, Suc 0, 2, 3}" "d' \<in> {0, Suc 0, 2, 3}"
    using assms by auto
  then show ?thesis
    by (auto simp: adjthan_nth)
qed

lemma or_and_nonzero:
  "((a OR b) AND c \<noteq> 0) = (a AND c \<noteq> 0 \<or> b AND c \<noteq> (0::uint))"
  by (simp add: bit.conj_disj_distrib2 or_eq_0_iff)

lemma flags_inv_init:
  "flags_inv s {} (ret, Some (replicate (st_w s * st_h s) 0))"
  by (simp add: flags_inv_def)

lemma flags_inv_dir:
  assumes inv: "flags_inv s D acc"
    and x: "x < st_w s" and y: "y < st_h s" and d: "d < 4"
    and r: "resolved s (y * st_w s + x)"
  shows "flags_inv s (insert (y * st_w s + x, d) D) (validate_dir s y x d acc)"
proof (cases "dir_check s y x d")
  case False
  then show ?thesis
    using inv x by (auto simp: validate_dir_eq flags_inv_def split: option.splits)
next
  case True
  let ?i = "y * st_w s + x"
  obtain fl where fl: "snd acc = Some fl" and len: "length fl = st_w s * st_h s"
    and bits: "\<And>i d. i < st_w s * st_h s \<Longrightarrow> d < 4 \<Longrightarrow>
      (fl ! i AND adj_f (adjthan ! d) \<noteq> 0) =
      ((i, d) \<in> D \<and> resolved s i \<and> dir_check s (i div st_w s) (i mod st_w s) d)"
    using inv by (auto simp: flags_inv_def split: option.splits)
  have new: "snd (validate_dir s y x d acc) = Some (fl[?i := fl ! ?i OR adj_f (adjthan ! d)])"
    using True fl by (simp add: validate_dir_eq flag_edge_def)
  have "(fl[?i := fl ! ?i OR adj_f (adjthan ! d)] ! i' AND adj_f (adjthan ! d') \<noteq> 0) =
      ((i', d') \<in> insert (?i, d) D \<and> resolved s i' \<and> dir_check s (i' div st_w s) (i' mod st_w s) d')"
    if i': "i' < st_w s * st_h s" and d': "d' < 4" for i' d'
  proof (cases "i' = ?i")
    case False
    then show ?thesis
      using bits [OF i' d'] by simp
  next
    case same: True
    have "(fl[?i := fl ! ?i OR adj_f (adjthan ! d)] ! i' AND adj_f (adjthan ! d') \<noteq> 0) =
        (fl ! ?i AND adj_f (adjthan ! d') \<noteq> 0 \<or> d = d')"
      using i' len same by (simp add: or_and_nonzero adj_f_bits [OF d d'])
    also have "\<dots> = (((?i, d') \<in> D \<and> resolved s ?i \<and> dir_check s y x d') \<or> d = d')"
      using bits [of ?i d'] i' d' same x by simp
    also have "\<dots> = ((?i, d') \<in> insert (?i, d) D \<and> resolved s ?i \<and> dir_check s y x d')"
      using True r by auto
    finally show ?thesis
      using same x by simp
  qed
  then show ?thesis
    using len by (simp add: flags_inv_def new)
qed

lemma flags_inv_dirs:
  assumes "flags_inv s D acc" "x < st_w s" "y < st_h s" "\<forall>d \<in> set ds. d < 4"
    "resolved s (y * st_w s + x)"
  shows "flags_inv s (D \<union> {(y * st_w s + x, d) | d. d \<in> set ds})
    (fold (validate_dir s y x) ds acc)"
  using assms(1,4)
proof (induction ds arbitrary: D acc)
  case Nil
  then show ?case by simp
next
  case (Cons d ds)
  have "flags_inv s (insert (y * st_w s + x, d) D) (validate_dir s y x d acc)"
    using Cons.prems assms(2,3,5) by (intro flags_inv_dir) simp_all
  then have "flags_inv s (insert (y * st_w s + x, d) D \<union> {(y * st_w s + x, d) | d. d \<in> set ds})
      (fold (validate_dir s y x) ds (validate_dir s y x d acc))"
    using Cons.prems by (intro Cons.IH) simp_all
  moreover have "insert (y * st_w s + x, d) D \<union> {(y * st_w s + x, d) | d. d \<in> set ds}
      = D \<union> {(y * st_w s + x, d') | d'. d' \<in> set (d # ds)}"
    by auto
  ultimately show ?case by simp
qed

lemma flags_inv_unresolved:
  assumes "flags_inv s D acc" "\<forall>p \<in> E. \<not> resolved s (fst p)"
  shows "flags_inv s (D \<union> E) acc"
  using assms by (fastforce simp: flags_inv_def split: option.splits)

lemma flags_inv_row:
  assumes "flags_inv s D acc" "\<forall>x \<in> set xs. x < st_w s" "y < st_h s"
  shows "flags_inv s (D \<union> {(y * st_w s + x, d) | x d. x \<in> set xs \<and> d < 4})
    (validate_row s y xs acc)"
  using assms(1,2)
proof (induction xs arbitrary: D acc)
  case Nil
  then show ?case by simp
next
  case (Cons x xs)
  let ?cell = "{(y * st_w s + x, d) | d. d \<in> set [0..<4]}"
  have some: "snd acc \<noteq> None"
    using Cons.prems(1) by (cases "snd acc") (auto simp: flags_inv_def)
  have step: "flags_inv s (D \<union> ?cell)
      (if resolved s (y * st_w s + x) then fold (validate_dir s y x) [0..<4] acc else acc)"
  proof (cases "resolved s (y * st_w s + x)")
    case True
    then show ?thesis
      using Cons.prems assms(3) flags_inv_dirs [of s D acc x y "[0..<4]"] by simp
  next
    case False
    then show ?thesis
      using flags_inv_unresolved [OF Cons.prems(1), of ?cell] by auto
  qed
  have ih: "flags_inv s ((D \<union> ?cell) \<union> {(y * st_w s + x, d) | x d. x \<in> set xs \<and> d < 4})
      (validate_row s y xs
        (if resolved s (y * st_w s + x) then fold (validate_dir s y x) [0..<4] acc else acc))"
    using step Cons.prems(2) by (intro Cons.IH) simp_all
  have seteq: "(D \<union> ?cell) \<union> {(y * st_w s + x, d) | x d. x \<in> set xs \<and> d < 4}
      = D \<union> {(y * st_w s + x', d) | x' d. x' \<in> set (x # xs) \<and> d < 4}"
    by auto
  have unf: "validate_row s y (x # xs) acc = validate_row s y xs
      (if resolved s (y * st_w s + x) then fold (validate_dir s y x) [0..<4] acc else acc)"
    using some by (auto simp: resolved_def)
  show ?case
    unfolding unf using ih unfolding seteq .
qed

lemma flags_inv_rows:
  assumes "flags_inv s D acc" "\<forall>x \<in> set xs. x < st_w s" "\<forall>y \<in> set ys. y < st_h s"
  shows "flags_inv s (D \<union> {(y * st_w s + x, d) | y x d. y \<in> set ys \<and> x \<in> set xs \<and> d < 4})
    (fold (\<lambda>y. validate_row s y xs) ys acc)"
  using assms(1,3)
proof (induction ys arbitrary: D acc)
  case Nil
  then show ?case by simp
next
  case (Cons y ys)
  let ?row = "{(y * st_w s + x, d) | x d. x \<in> set xs \<and> d < 4}"
  have "flags_inv s (D \<union> ?row) (validate_row s y xs acc)"
    using Cons.prems assms(2) by (intro flags_inv_row) simp_all
  then have "flags_inv s ((D \<union> ?row) \<union> {(y * st_w s + x, d) | y x d. y \<in> set ys \<and> x \<in> set xs \<and> d < 4})
      (fold (\<lambda>y. validate_row s y xs) ys (validate_row s y xs acc))"
    using Cons.prems by (intro Cons.IH) simp_all
  moreover have "(D \<union> ?row) \<union> {(y * st_w s + x, d) | y x d. y \<in> set ys \<and> x \<in> set xs \<and> d < 4}
      = D \<union> {(y' * st_w s + x, d) | y' x d. y' \<in> set (y # ys) \<and> x \<in> set xs \<and> d < 4}"
    by auto
  ultimately show ?case by simp
qed

lemma subsets_validate_flags:
  obtains fl where "fst (snd (subsets_validate s True hc)) = Some fl"
    and "length fl = st_w s * st_h s"
    and "\<And>i d. i < st_w s * st_h s \<Longrightarrow> d < 4 \<Longrightarrow>
      (fl ! i AND adj_f (adjthan ! d) \<noteq> 0) =
      (resolved s i \<and> dir_check s (i div st_w s) (i mod st_w s) d)"
proof -
  let ?k = "st_w s * st_h s"
  let ?all = "{(y * st_w s + x, d) | y x d. y \<in> set [0..<st_h s] \<and> x \<in> set [0..<st_w s] \<and> d < (4::nat)}"
  define ret0 where "ret0 = (if has_unresolved s then STATUS_UNFINISHED else STATUS_COMPLETE)"
  define vc where "vc = validate_counts s True [0..<?k] (ret0, replicate ?k 0)"
  define va where "va = validate_arrows s (fst vc, Some (replicate ?k 0))"
  have va: "fst (snd (subsets_validate s True hc)) = snd va"
    by (simp add: subsets_validate_unfold Let_def va_def vc_def ret0_def)
  have "flags_inv s ({} \<union> ?all) va"
    unfolding va_def validate_arrows_def
    by (intro flags_inv_rows flags_inv_init) simp_all
  then obtain fl where fl: "snd va = Some fl" "length fl = ?k"
    and bits: "\<And>i d. i < ?k \<Longrightarrow> d < 4 \<Longrightarrow>
      (fl ! i AND adj_f (adjthan ! d) \<noteq> 0) =
      ((i, d) \<in> ?all \<and> resolved s i \<and> dir_check s (i div st_w s) (i mod st_w s) d)"
    by (auto simp: flags_inv_def split: option.splits)
  have "(i, d) \<in> ?all" if "i < ?k" "d < 4" for i d
  proof -
    have w: "0 < st_w s" using that(1) by (cases "st_w s") auto
    have "i div st_w s < st_h s"
      using that(1) by (simp add: less_mult_imp_div_less mult.commute)
    moreover have "i mod st_w s < st_w s" using w by simp
    moreover have "i = (i div st_w s) * st_w s + i mod st_w s" by simp
    ultimately have "\<exists>y x. i = y * st_w s + x \<and> y < st_h s \<and> x < st_w s"
      by blast
    then show ?thesis
      using that(2) by auto
  qed
  then have "\<And>i d. i < ?k \<Longrightarrow> d < 4 \<Longrightarrow>
      (fl ! i AND adj_f (adjthan ! d) \<noteq> 0) =
      (resolved s i \<and> dir_check s (i div st_w s) (i mod st_w s) d)"
    using bits by simp
  then show ?thesis
    using that va fl by simp
qed


lemma subsets_validate_flags_ex:
  "\<exists>fl. fst (snd (subsets_validate s True hc)) = Some fl \<and> length fl = st_w s * st_h s \<and>
     (\<forall>i < st_w s * st_h s. \<forall>d < 4.
        (fl ! i AND adj_f (adjthan ! d) \<noteq> 0) =
        (resolved s i \<and> dir_check s (i div st_w s) (i mod st_w s) d))"
proof (rule subsets_validate_flags [of s hc])
  fix fl
  assume "fst (snd (subsets_validate s True hc)) = Some fl" "length fl = st_w s * st_h s"
    and "\<And>i d. i < st_w s * st_h s \<Longrightarrow> d < 4 \<Longrightarrow>
      (fl ! i AND adj_f (adjthan ! d) \<noteq> 0) =
      (resolved s i \<and> dir_check s (i div st_w s) (i mod st_w s) d)"
  then show ?thesis
    by blast
qed

section \<open>Loops and cubes\<close>

lemma fold_invariant:
  assumes "P a" and "\<And>x a. x \<in> set xs \<Longrightarrow> P a \<Longrightarrow> P (f x a)"
  shows "P (fold f xs a)"
  using assms by (induction xs arbitrary: a) simp_all

lemma for_edges_invariant:
  assumes "P a" and "\<And>y x d a. y < h \<Longrightarrow> x < w \<Longrightarrow> d < 4 \<Longrightarrow> P a \<Longrightarrow> P (body y x d a)"
  shows "P (for_edges w h body a)"
  unfolding for_edges_def
proof (rule fold_invariant [where P = P])
  show "P a" by (rule assms(1))
next
  fix y a assume y: "y \<in> set [0..<h]" and a: "P a"
  show "P (fold (\<lambda>x. fold (\<lambda>d. body y x d) [0..<4]) [0..<w] a)"
  proof (rule fold_invariant [where P = P])
    show "P a" by (rule a)
  next
    fix x b assume x: "x \<in> set [0..<w]" and b: "P b"
    show "P (fold (\<lambda>d. body y x d) [0..<4] b)"
    proof (rule fold_invariant [where P = P])
      show "P b" by (rule b)
    next
      fix d c assume "d \<in> set [0..<4]" and "P c"
      then show "P (body y x d c)"
        using x y by (intro assms(2)) simp_all
    qed
  qed
qed

lemma cell_index_less:
  assumes "i < k" "nj < (m::nat)"
  shows "i * m + nj < k * m"
proof -
  have "i * m + nj < i * m + m" using assms(2) by simp
  also have "\<dots> = Suc i * m" by simp
  also have "\<dots> \<le> k * m" using assms(1) by (intro mult_le_mono1) simp
  finally show ?thesis .
qed

lemma cell_index_inj:
  assumes "nj < (m::nat)" "nj' < m"
  shows "(i * m + nj = i' * m + nj') = (i = i' \<and> nj = nj')"
proof
  assume eq: "i * m + nj = i' * m + nj'"
  have "(i * m + nj) div m = i" "(i' * m + nj') div m = i'"
    using assms by simp_all
  then have "i = i'" using eq by simp
  then show "i = i' \<and> nj = nj'" using eq by simp
qed simp

lemma cell_yx_less:
  assumes "y < h" "x < (w::nat)"
  shows "y * w + x < w * h"
  using cell_index_less [OF assms] by (simp add: mult.commute)

subsection \<open>Clearing entries\<close>

lemma kill_length: "length (kill K c) = length c"
  by (simp add: kill_def)

lemma kill_nth: "k < length c \<Longrightarrow> kill K c ! k = (c ! k \<and> k \<notin> K)"
  by (simp add: kill_def)

lemma kill_empty: "kill {} c = c"
  by (simp add: kill_def map_nth)

lemma kill_kill: "kill K (kill L c) = kill (L \<union> K) c"
  by (rule nth_equalityI) (auto simp: kill_length kill_nth)

lemma kill_update: "k < length c \<Longrightarrow> kill {k} c = c[k := False]"
  by (rule nth_equalityI) (auto simp: kill_length kill_nth nth_list_update)

lemma kill_update_gen: "c[k := False] = kill {k} c"
proof (cases "k < length c")
  case True
  then show ?thesis by (simp add: kill_update)
next
  case False
  have "kill {k} c = c"
    using False by (intro nth_equalityI) (auto simp: kill_length kill_nth)
  then show ?thesis using False by (simp add: list_update_beyond)
qed

lemma kill_dead: "\<not> c ! k \<Longrightarrow> kill (insert k K) c = kill K c"
  by (rule nth_equalityI) (auto simp: kill_length kill_nth)

lemma fold_kill:
  assumes "\<And>x a. x \<in> set xs \<Longrightarrow> snd (f x a) = kill (K x) (snd a)"
  shows "snd (fold f xs a) = kill (\<Union>x \<in> set xs. K x) (snd a)"
  using assms
proof (induction xs arbitrary: a)
  case Nil
  then show ?case by (simp add: kill_empty)
next
  case (Cons x xs)
  have "snd (fold f xs (f x a)) = kill (\<Union>x \<in> set xs. K x) (snd (f x a))"
    using Cons.prems by (intro Cons.IH) simp
  also have "\<dots> = kill (K x \<union> (\<Union>x \<in> set xs. K x)) (snd a)"
    using Cons.prems [of x a] by (simp add: kill_kill)
  finally show ?case by simp
qed

lemma for_edges_kill:
  assumes "\<And>y x d a. y < h \<Longrightarrow> x < w \<Longrightarrow> d < 4 \<Longrightarrow> snd (body y x d a) = kill (K y x d) (snd a)"
  shows "snd (for_edges w h body a) = kill (\<Union>y \<in> {0..<h}. \<Union>x \<in> {0..<w}. \<Union>d \<in> {0..<4}. K y x d) (snd a)"
proof -
  have d: "snd (fold (\<lambda>d. body y x d) [0..<4] a) = kill (\<Union>d \<in> set [0..<4]. K y x d) (snd a)"
    if "y < h" "x < w" for y x a
    using that by (intro fold_kill assms) simp_all
  have x: "snd (fold (\<lambda>x. fold (\<lambda>d. body y x d) [0..<4]) [0..<w] a)
      = kill (\<Union>x \<in> set [0..<w]. \<Union>d \<in> set [0..<4]. K y x d) (snd a)"
    if "y < h" for y a
    using that by (intro fold_kill d) simp_all
  have "snd (fold (\<lambda>y. fold (\<lambda>x. fold (\<lambda>d. body y x d) [0..<4]) [0..<w]) [0..<h] a)
      = kill (\<Union>y \<in> set [0..<h]. \<Union>x \<in> set [0..<w]. \<Union>d \<in> set [0..<4]. K y x d) (snd a)"
    by (intro fold_kill x) simp_all
  then show ?thesis
    by (simp add: for_edges_def)
qed


section \<open>Edges of the grid\<close>

lemma edge_target:
  assumes "0 \<le> int x + dx" "0 \<le> int y + dy"
  shows "nat (int (y * w + x) + dy * int w + dx) = nat (int y + dy) * w + nat (int x + dx)"
proof -
  have "int (nat (int y + dy) * w + nat (int x + dx)) = int (y * w + x) + dy * int w + dx"
    using assms by (simp add: algebra_simps)
  then show ?thesis
    by (metis nat_int)
qed

lemma neighbour_cell:
  assumes "x < st_w s"
  shows "neighbour s (y * st_w s + x) d =
    (if int x + adj_dx (adjthan ! d) < 0 \<or> int x + adj_dx (adjthan ! d) \<ge> int (st_w s) \<or>
        int y + adj_dy (adjthan ! d) < 0 \<or> int y + adj_dy (adjthan ! d) \<ge> int (st_h s)
     then None
     else Some (nat (int (y * st_w s + x) + adj_dy (adjthan ! d) * int (st_w s) + adj_dx (adjthan ! d))))"
proof (cases "int x + adj_dx (adjthan ! d) < 0 \<or> int x + adj_dx (adjthan ! d) \<ge> int (st_w s) \<or>
        int y + adj_dy (adjthan ! d) < 0 \<or> int y + adj_dy (adjthan ! d) \<ge> int (st_h s)")
  case True
  then show ?thesis
    using assms unfolding neighbour_def Let_def by auto
next
  case False
  then have "nat (int (y * st_w s + x) + adj_dy (adjthan ! d) * int (st_w s) + adj_dx (adjthan ! d))
      = nat (int y + adj_dy (adjthan ! d)) * st_w s + nat (int x + adj_dx (adjthan ! d))"
    by (intro edge_target) simp_all
  then show ?thesis
    using False assms unfolding neighbour_def Let_def by auto
qed

lemma neighbour_less:
  assumes "neighbour s i d = Some j"
  shows "j < st_w s * st_h s"
proof -
  obtain x2 y2 where j: "j = nat y2 * st_w s + nat x2"
    and grid: "0 \<le> x2" "x2 < int (st_w s)" "0 \<le> y2" "y2 < int (st_h s)"
    using assms by (auto simp: neighbour_def Let_def split: if_splits)
  have "nat y2 < st_h s" "nat x2 < st_w s"
    using grid by auto
  then show ?thesis
    unfolding j by (rule cell_yx_less)
qed

lemma opposite_opposite: "d < 4 \<Longrightarrow> opposite (opposite d) = d"
  by (auto simp: opposite_def elim!: dir_cases)

lemma neighbour_sym:
  assumes "neighbour s i d = Some j" "d < 4" "i < st_w s * st_h s"
  shows "neighbour s j (opposite d) = Some i"
proof -
  define x where "x = i mod st_w s"
  define y where "y = i div st_w s"
  define x2 where "x2 = int x + adj_dx (adjthan ! d)"
  define y2 where "y2 = int y + adj_dy (adjthan ! d)"
  have j: "j = nat y2 * st_w s + nat x2"
    and grid: "0 \<le> x2" "x2 < int (st_w s)" "0 \<le> y2" "y2 < int (st_h s)"
    using assms(1) by (auto simp: neighbour_def Let_def x_def y_def x2_def y2_def split: if_splits)
  have w: "0 < st_w s" using grid by (cases "st_w s") auto
  have x: "x < st_w s" using w by (simp add: x_def)
  have i: "i = y * st_w s + x" by (simp add: x_def y_def)
  have y: "y < st_h s"
    using assms(3) by (simp add: y_def less_mult_imp_div_less mult.commute)
  have jm: "j mod st_w s = nat x2" "j div st_w s = nat y2"
    using grid by (simp_all add: j)
  have coords: "int (nat x2) + adj_dx (adjthan ! opposite d) = int x"
    "int (nat y2) + adj_dy (adjthan ! opposite d) = int y"
    using assms(2) grid by (auto elim!: dir_cases simp: x2_def y2_def adjthan_nth opposite_simps)
  show ?thesis
    unfolding neighbour_def Let_def jm coords using x y by (simp add: i)
qed

lemma incomparable_edge_sym:
  assumes "d < 4" "i < st_w s * st_h s" "j < st_w s * st_h s"
  shows "incomparable_edge s i d j = incomparable_edge s j (opposite d) i"
  using neighbour_sym [of s i d j] neighbour_sym [of s j "opposite d" i] assms
  by (auto simp: incomparable_edge_def opposite_opposite opposite_lt)

section \<open>The incomparability rule\<close>

lemma disjoint_opt_kill:
  "snd (disjoint_opt s n2 i1 i2 opt a) =
    kill (if comparable (known s ! i1) opt then {i2 * n2 + opt} else {}) (snd a)"
  by (cases a) (auto simp: disjoint_opt_def comparable_def kill_empty kill_update_gen kill_dead)

lemma disjoint_opts_kill:
  "snd (fold (disjoint_opt s n2 i1 i2) [0..<n2] a) =
    kill {i2 * n2 + opt | opt. opt < n2 \<and> comparable (known s ! i1) opt} (snd a)"
proof -
  have "snd (fold (disjoint_opt s n2 i1 i2) [0..<n2] a) =
      kill (\<Union>opt \<in> set [0..<n2]. if comparable (known s ! i1) opt then {i2 * n2 + opt} else {}) (snd a)"
    by (intro fold_kill disjoint_opt_kill)
  moreover have "(\<Union>opt \<in> set [0..<n2]. if comparable (known s ! i1) opt then {i2 * n2 + opt} else {})
      = {i2 * n2 + opt | opt. opt < n2 \<and> comparable (known s ! i1) opt}"
    by (auto split: if_splits)
  ultimately show ?thesis by simp
qed

lemma disjoint_step_kill:
  "snd (disjoint_step s y x d a) = kill (disjoint_targets s y x d) (snd a)"
proof -
  obtain ret c where a: "a = (ret, c)" by (cases a)
  have two: "c[k := False, l := False] = kill {k, l} c" for k l
    by (simp add: kill_update_gen kill_kill insert_commute)
  have none: "\<not> c ! k \<Longrightarrow> \<not> c ! l \<Longrightarrow> kill {k, l} c = c" for k l
    by (simp add: kill_dead kill_empty)
  show ?thesis
    unfolding a disjoint_step_def disjoint_targets_def Let_def
    by (auto simp: kill_empty two none disjoint_opts_kill)
qed

lemma subsets_disjoint_kill:
  "snd (subsets_disjoint s c) =
    kill (\<Union>y \<in> {0..<st_h s}. \<Union>x \<in> {0..<st_w s}. \<Union>d \<in> {0..<4}. disjoint_targets s y x d) c"
  unfolding subsets_disjoint_def
  by (subst for_edges_kill [where K = "disjoint_targets s"]) (simp_all add: disjoint_step_kill)

lemma disjoint_targets_edge:
  assumes "x < st_w s" "d < 4"
  shows "disjoint_targets s y x d =
    (case neighbour s (y * st_w s + x) d of
       None \<Rightarrow> {}
     | Some i2 \<Rightarrow>
        if \<not> incomparable_edge s (y * st_w s + x) d i2 then {}
        else if \<not> resolved s (y * st_w s + x)
        then {(y * st_w s + x) * 2 ^ st_n s, (y * st_w s + x) * 2 ^ st_n s + (2 ^ st_n s - 1)}
        else if \<not> resolved s i2
        then {i2 * 2 ^ st_n s + opt | opt. opt < 2 ^ st_n s \<and> comparable (known s ! (y * st_w s + x)) opt}
        else {})"
  unfolding disjoint_targets_def Let_def neighbour_cell [OF assms(1)] incomparable_edge_def
  by (simp add: arrow_def resolved_def adj_f_opposite [OF assms(2)])

lemma subsets_disjoint_entry:
  assumes len: "length cube = st_w s * st_h s * 2 ^ st_n s"
    and j: "j < st_w s * st_h s" and opt: "opt < 2 ^ st_n s"
  shows "snd (subsets_disjoint s cube) ! (j * 2 ^ st_n s + opt) =
    (cube ! (j * 2 ^ st_n s + opt) \<and>
     \<not> (\<not> resolved s j \<and>
        (\<exists>d \<in> {0..<4}. \<exists>i \<in> {0..<st_w s * st_h s}. incomparable_edge s j d i \<and>
           (opt = 0 \<or> opt = 2 ^ st_n s - 1 \<or> (resolved s i \<and> comparable (known s ! i) opt)))))"
proof -
  let ?n2 = "2 ^ st_n s :: nat"
  let ?k = "j * ?n2 + opt"
  let ?K = "\<Union>y \<in> {0..<st_h s}. \<Union>x \<in> {0..<st_w s}. \<Union>d \<in> {0..<4}. disjoint_targets s y x d"
  have k: "?k < length cube"
    unfolding len by (rule cell_index_less [OF j opt])
  have w: "0 < st_w s" using j by (cases "st_w s") auto
  have top: "?n2 - 1 < ?n2" by simp
  have "(?k \<in> ?K) = (\<not> resolved s j \<and>
        (\<exists>d \<in> {0..<4}. \<exists>i \<in> {0..<st_w s * st_h s}. incomparable_edge s j d i \<and>
           (opt = 0 \<or> opt = ?n2 - 1 \<or> (resolved s i \<and> comparable (known s ! i) opt))))"
    (is "?L = ?R")
  proof
    assume ?L
    then obtain y x d where yxd: "y < st_h s" "x < st_w s" "d < 4"
      and mem: "?k \<in> disjoint_targets s y x d"
      by auto
    let ?i1 = "y * st_w s + x"
    have i1: "?i1 < st_w s * st_h s"
      using yxd by (intro cell_yx_less)
    obtain i2 where nb: "neighbour s ?i1 d = Some i2"
      and inc: "incomparable_edge s ?i1 d i2"
      using mem unfolding disjoint_targets_edge [OF yxd(2,3)]
      by (auto split: option.splits if_splits)
    have i2: "i2 < st_w s * st_h s"
      using nb by (rule neighbour_less)
    show ?R
    proof (cases "resolved s ?i1")
      case False
      then have "?k = ?i1 * ?n2 + 0 \<or> ?k = ?i1 * ?n2 + (?n2 - 1)"
        using mem nb inc unfolding disjoint_targets_edge [OF yxd(2,3)] by simp
      then have "j = ?i1 \<and> (opt = 0 \<or> opt = ?n2 - 1)"
        using cell_index_inj [OF opt, of 0 j ?i1] cell_index_inj [OF opt top, of j ?i1] by auto
      then have "\<not> resolved s j \<and> d \<in> {0..<4} \<and> i2 \<in> {0..<st_w s * st_h s} \<and>
          incomparable_edge s j d i2 \<and> (opt = 0 \<or> opt = ?n2 - 1)"
        using False inc i2 yxd(3) by simp
      then show ?thesis
        by blast
    next
      case True
      then have "\<not> resolved s i2 \<and>
          ?k \<in> {i2 * ?n2 + opt' | opt'. opt' < ?n2 \<and> comparable (known s ! ?i1) opt'}"
        using mem nb inc unfolding disjoint_targets_edge [OF yxd(2,3)]
        by (simp split: if_splits)
      then obtain opt' where "\<not> resolved s i2" "?k = i2 * ?n2 + opt'" "opt' < ?n2"
          "comparable (known s ! ?i1) opt'"
        by auto
      then have "j = i2" "comparable (known s ! ?i1) opt" "\<not> resolved s j"
        using cell_index_inj [OF opt, of opt' j i2] by auto
      moreover have "incomparable_edge s j (opposite d) ?i1"
        using inc \<open>j = i2\<close> incomparable_edge_sym [OF yxd(3) i1 i2] by simp
      ultimately have "\<not> resolved s j \<and> opposite d \<in> {0..<4} \<and> ?i1 \<in> {0..<st_w s * st_h s} \<and>
          incomparable_edge s j (opposite d) ?i1 \<and> resolved s ?i1 \<and> comparable (known s ! ?i1) opt"
        using True i1 opposite_lt [OF yxd(3)] by simp
      then show ?thesis
        by blast
    qed
  next
    assume R: ?R
    then obtain d i where d: "d < 4" and i: "i < st_w s * st_h s"
      and inc: "incomparable_edge s j d i"
      and what: "opt = 0 \<or> opt = ?n2 - 1 \<or> (resolved s i \<and> comparable (known s ! i) opt)"
      and unres: "\<not> resolved s j"
      by auto
    have cell: "c = (c div st_w s) * st_w s + c mod st_w s"
      "c div st_w s \<in> {0..<st_h s}" "c mod st_w s \<in> {0..<st_w s}" "c mod st_w s < st_w s"
      if "c < st_w s * st_h s" for c
      using that w by (simp_all add: less_mult_imp_div_less mult.commute)
    show ?L
    proof (cases "opt = 0 \<or> opt = ?n2 - 1")
      case True
      have "?k \<in> disjoint_targets s (j div st_w s) (j mod st_w s) d"
        unfolding disjoint_targets_edge [OF cell(4) [OF j] d]
        using inc unres True cell(1) [OF j, symmetric]
        by (auto simp: incomparable_edge_def)
      then show ?thesis
        using cell(2,3) [OF j] d by fastforce
    next
      case False
      then have ri: "resolved s i" and cmp: "comparable (known s ! i) opt"
        using what by auto
      have inc': "incomparable_edge s i (opposite d) j"
        using inc incomparable_edge_sym [OF d j i] by simp
      have "?k \<in> disjoint_targets s (i div st_w s) (i mod st_w s) (opposite d)"
        unfolding disjoint_targets_edge [OF cell(4) [OF i] opposite_lt [OF d]]
        using inc' ri unres cmp opt cell(1) [OF i, symmetric]
        by (auto simp: incomparable_edge_def)
      then show ?thesis
        using cell(2,3) [OF i] opposite_lt [OF d] by fastforce
    qed
  qed
  then show ?thesis
    by (simp add: subsets_disjoint_kill kill_nth [OF k])
qed

section \<open>Bit sets and the measure\<close>

lemma bits_le_refl: "bits_le a a"
  by (simp add: bits_le_def)

lemma bits_le_trans: "bits_le a b \<Longrightarrow> bits_le b c \<Longrightarrow> bits_le a c"
  unfolding bits_le_def by (metis and.assoc)

lemma bits_le_antisym: "bits_le a b \<Longrightarrow> bits_le b a \<Longrightarrow> a = b"
  unfolding bits_le_def by (metis and.commute)

lemma bits_le_or: "bits_le a (a OR b)"
  by (simp add: bits_le_def)

lemma bits_le_and: "bits_le (a AND b) a"
  by (simp add: bits_le_def and.assoc [symmetric] and.commute)

lemma bits_le_unat: "bits_le a b \<Longrightarrow> unat a \<le> unat b"
  unfolding bits_le_def by (metis word_and_le1 word_le_nat_alt)

lemma bits_le_unat_strict: "bits_le a b \<Longrightarrow> a \<noteq> b \<Longrightarrow> unat a < unat b"
  using bits_le_unat [of a b] by (auto simp: word_unat_eq_iff le_less)

lemma bits_le_not: "bits_le a b \<Longrightarrow> bits_le (NOT b) (NOT a)"
  unfolding bits_le_def
  by (rule bit_eqI) (metis bit_and_iff bit_not_iff)

lemma sum_list_pointwise:
  assumes "length xs = length ys" "\<forall>i < length xs. f (xs ! i) \<le> (f (ys ! i) :: nat)"
  shows "sum_list (map f xs) \<le> sum_list (map f ys)"
  using assms
proof (induction xs ys rule: list_induct2)
  case Nil
  then show ?case by simp
next
  case (Cons x xs y ys)
  have "f x \<le> f y"
    using Cons.prems by (auto dest: spec [of _ 0])
  moreover have "\<forall>i < length xs. f (xs ! i) \<le> f (ys ! i)"
    using Cons.prems by (auto dest: spec [of _ "Suc i" for i])
  ultimately show ?case
    using Cons.IH by simp
qed

lemma sum_list_pointwise_strict:
  assumes "length xs = length ys" "\<forall>i < length xs. f (xs ! i) \<le> (f (ys ! i) :: nat)"
    and "k < length xs" "f (xs ! k) < f (ys ! k)"
  shows "sum_list (map f xs) < sum_list (map f ys)"
  using assms
proof (induction xs ys arbitrary: k rule: list_induct2)
  case Nil
  then show ?case by simp
next
  case (Cons x xs y ys)
  have hd: "f x \<le> f y"
    using Cons.prems(1) by (auto dest: spec [of _ 0])
  have tl: "\<forall>i < length xs. f (xs ! i) \<le> f (ys ! i)"
    using Cons.prems(1) by (auto dest: spec [of _ "Suc i" for i])
  show ?case
  proof (cases k)
    case 0
    then have "f x < f y" using Cons.prems(3) by simp
    moreover have "sum_list (map f xs) \<le> sum_list (map f ys)"
      using Cons.hyps tl by (rule sum_list_pointwise)
    ultimately show ?thesis by simp
  next
    case (Suc k')
    then have "sum_list (map f xs) < sum_list (map f ys)"
      using Cons.prems(2,3) tl by (intro Cons.IH [of k']) simp_all
    then show ?thesis using hd by simp
  qed
qed

lemma tighter_refl: "tighter s s"
  by (simp add: tighter_def bits_le_refl)

lemma tighter_trans: "tighter s'' s' \<Longrightarrow> tighter s' s \<Longrightarrow> tighter s'' s"
  unfolding tighter_def by (auto intro: bits_le_trans)

lemma tighter_sums:
  assumes "tighter s' s"
  shows "sum_list (map (\<lambda>k. unat (NOT k)) (known s')) \<le> sum_list (map (\<lambda>k. unat (NOT k)) (known s))"
    and "sum_list (map unat (st_mask s')) \<le> sum_list (map unat (st_mask s))"
proof -
  have len: "length (known s') = length (known s)" "length (st_mask s') = length (st_mask s)"
    using assms by (simp_all add: tighter_def)
  have k: "\<forall>i < length (known s'). unat (NOT (known s' ! i)) \<le> unat (NOT (known s ! i))"
    using assms by (auto simp: tighter_def intro: bits_le_unat bits_le_not)
  have m: "\<forall>i < length (st_mask s'). unat (st_mask s' ! i) \<le> unat (st_mask s ! i)"
    using assms by (auto simp: tighter_def intro: bits_le_unat)
  show "sum_list (map (\<lambda>k. unat (NOT k)) (known s')) \<le> sum_list (map (\<lambda>k. unat (NOT k)) (known s))"
    using len k by (intro sum_list_pointwise) simp_all
  show "sum_list (map unat (st_mask s')) \<le> sum_list (map unat (st_mask s))"
    using len m by (intro sum_list_pointwise) simp_all
qed

lemma tighter_known_strict:
  assumes "tighter s' s" "i < length (known s)" "known s' ! i \<noteq> known s ! i"
  shows "bounds_size s' < bounds_size s"
proof -
  have len: "length (known s') = length (known s)"
    using assms(1) by (simp add: tighter_def)
  have k: "\<forall>i < length (known s'). unat (NOT (known s' ! i)) \<le> unat (NOT (known s ! i))"
    using assms(1) by (auto simp: tighter_def intro: bits_le_unat bits_le_not)
  have "bits_le (NOT (known s' ! i)) (NOT (known s ! i))"
    using assms(1,2) by (auto simp: tighter_def intro: bits_le_not)
  then have "unat (NOT (known s' ! i)) < unat (NOT (known s ! i))"
    using assms(3) by (intro bits_le_unat_strict) auto
  then have "sum_list (map (\<lambda>k. unat (NOT k)) (known s')) < sum_list (map (\<lambda>k. unat (NOT k)) (known s))"
    using len k assms(2) by (intro sum_list_pointwise_strict [where k = i]) simp_all
  then show ?thesis
    using tighter_sums(2) [OF assms(1)] by (simp add: bounds_size_def)
qed

lemma tighter_mask_strict:
  assumes "tighter s' s" "i < length (st_mask s)" "st_mask s' ! i \<noteq> st_mask s ! i"
  shows "bounds_size s' < bounds_size s"
proof -
  have len: "length (st_mask s') = length (st_mask s)"
    using assms(1) by (simp add: tighter_def)
  have m: "\<forall>i < length (st_mask s'). unat (st_mask s' ! i) \<le> unat (st_mask s ! i)"
    using assms(1) by (auto simp: tighter_def intro: bits_le_unat)
  have "bits_le (st_mask s' ! i) (st_mask s ! i)"
    using assms(1,2) by (auto simp: tighter_def)
  then have "unat (st_mask s' ! i) < unat (st_mask s ! i)"
    using assms(3) by (intro bits_le_unat_strict) auto
  then have "sum_list (map unat (st_mask s')) < sum_list (map unat (st_mask s))"
    using len m assms(2) by (intro sum_list_pointwise_strict [where k = i]) simp_all
  then show ?thesis
    using tighter_sums(1) [OF assms(1)] by (simp add: bounds_size_def)
qed

lemma tighter_bounds_size: "tighter s' s \<Longrightarrow> bounds_size s' \<le> bounds_size s"
  using tighter_sums [of s' s] by (simp add: bounds_size_def)

subsection \<open>Updating one bound\<close>

lemma nth_update_cases:
  "xs[i := v] ! j = (if j = i \<and> i < length xs then v else xs ! j)"
  by (cases "i < length xs") (auto simp: nth_list_update list_update_beyond)

lemma known_update_tighter:
  assumes "bits_le (known s ! i) v"
  shows "tighter (s\<lparr>known := (known s)[i := v]\<rparr>) s"
  using assms by (auto simp: tighter_def nth_update_cases bits_le_refl)

lemma mask_update_tighter:
  assumes "bits_le v (st_mask s ! i)"
  shows "tighter (s\<lparr>st_mask := (st_mask s)[i := v]\<rparr>) s"
  using assms by (auto simp: tighter_def nth_update_cases bits_le_refl)

lemma known_update_same:
  assumes "(known s)[i := v] ! i = known s ! i"
  shows "s\<lparr>known := (known s)[i := v]\<rparr> = s"
proof -
  have "(known s)[i := v] = known s"
    using assms by (cases "i < length (known s)") (simp_all add: list_update_beyond list_update_same_conv)
  then show ?thesis by simp
qed

lemma mask_update_same:
  assumes "(st_mask s)[i := v] ! i = st_mask s ! i"
  shows "s\<lparr>st_mask := (st_mask s)[i := v]\<rparr> = s"
proof -
  have "(st_mask s)[i := v] = st_mask s"
    using assms by (cases "i < length (st_mask s)") (simp_all add: list_update_beyond list_update_same_conv)
  then show ?thesis by simp
qed

lemma known_update_strict:
  assumes "bits_le (known s ! i) v" "(known s)[i := v] ! i \<noteq> known s ! i"
  shows "bounds_size (s\<lparr>known := (known s)[i := v]\<rparr>) < bounds_size s"
proof -
  have i: "i < length (known s)"
    using assms(2) by (cases "i < length (known s)") (simp_all add: list_update_beyond)
  show ?thesis
    using known_update_tighter [OF assms(1)] i assms(2)
    by (intro tighter_known_strict [where i = i]) simp_all
qed

lemma mask_update_strict:
  assumes "bits_le v (st_mask s ! i)" "(st_mask s)[i := v] ! i \<noteq> st_mask s ! i"
  shows "bounds_size (s\<lparr>st_mask := (st_mask s)[i := v]\<rparr>) < bounds_size s"
proof -
  have i: "i < length (st_mask s)"
    using assms(2) by (cases "i < length (st_mask s)") (simp_all add: list_update_beyond)
  show ?thesis
    using mask_update_tighter [OF assms(1)] i assms(2)
    by (intro tighter_mask_strict [where i = i]) simp_all
qed

section \<open>Rules on the bounds make progress\<close>

lemma state_progress_refl: "state_progress a a"
  by (simp add: state_progress_def tighter_refl)

lemma state_progress_trans:
  assumes "state_progress a a'" "state_progress a' a''"
  shows "state_progress a a''"
proof -
  have t: "tighter (snd a'') (snd a)"
    using assms by (auto simp: state_progress_def intro: tighter_trans)
  have le: "fst a \<le> fst a'" "fst a' \<le> fst a''"
    using assms by (auto simp: state_progress_def)
  have same: "snd a'' = snd a" if "fst a'' = fst a"
  proof -
    have "fst a' = fst a" "fst a'' = fst a'" using le that by auto
    then show ?thesis using assms by (auto simp: state_progress_def)
  qed
  have strict: "bounds_size (snd a'') < bounds_size (snd a)" if "fst a < fst a''"
  proof (cases "fst a < fst a'")
    case True
    then have "bounds_size (snd a') < bounds_size (snd a)"
      using assms(1) by (simp add: state_progress_def)
    moreover have "bounds_size (snd a'') \<le> bounds_size (snd a')"
      using assms(2) by (auto simp: state_progress_def intro: tighter_bounds_size)
    ultimately show ?thesis by simp
  next
    case False
    then have "fst a' < fst a''" using that le by simp
    then have "bounds_size (snd a'') < bounds_size (snd a')"
      using assms(2) by (simp add: state_progress_def)
    moreover have "bounds_size (snd a') \<le> bounds_size (snd a)"
      using assms(1) by (auto simp: state_progress_def intro: tighter_bounds_size)
    ultimately show ?thesis by simp
  qed
  show ?thesis
    unfolding state_progress_def using t le same strict by auto
qed

lemma state_progress_fold:
  assumes "\<And>x a. x \<in> set xs \<Longrightarrow> state_progress a (f x a)"
  shows "state_progress a (fold f xs a)"
proof (rule fold_invariant [where P = "state_progress a"])
  show "state_progress a a" by (rule state_progress_refl)
next
  fix x b assume "x \<in> set xs" "state_progress a b"
  then show "state_progress a (f x b)"
    using assms by (blast intro: state_progress_trans)
qed

lemma state_progress_for_edges:
  assumes "\<And>y x d a. y < h \<Longrightarrow> x < w \<Longrightarrow> d < 4 \<Longrightarrow> state_progress a (body y x d a)"
  shows "state_progress a (for_edges w h body a)"
proof (rule for_edges_invariant [where P = "state_progress a"])
  show "state_progress a a" by (rule state_progress_refl)
next
  fix y x :: nat and d :: nat and b assume "y < h" "x < w" "d < 4" "state_progress a b"
  then show "state_progress a (body y x d b)"
    using assms by (blast intro: state_progress_trans)
qed

lemma known_step:
  assumes "bits_le (known s ! i) v"
  shows "state_progress (r, s)
    (if known s ! i \<noteq> (known s)[i := v] ! i then r + 1 else r, s\<lparr>known := (known s)[i := v]\<rparr>)"
proof (cases "(known s)[i := v] ! i = known s ! i")
  case True
  then show ?thesis
    using known_update_same [OF True] by (simp add: state_progress_def tighter_refl)
next
  case False
  then show ?thesis
    using known_update_tighter [OF assms] known_update_strict [OF assms False]
    by (auto simp: state_progress_def)
qed

lemma mask_step:
  assumes "bits_le v (st_mask s ! i)"
  shows "state_progress (r, s)
    (if st_mask s ! i \<noteq> (st_mask s)[i := v] ! i then r + 1 else r, s\<lparr>st_mask := (st_mask s)[i := v]\<rparr>)"
proof (cases "(st_mask s)[i := v] ! i = st_mask s ! i")
  case True
  then show ?thesis
    using mask_update_same [OF True] by (simp add: state_progress_def tighter_refl)
next
  case False
  then show ?thesis
    using mask_update_tighter [OF assms] mask_update_strict [OF assms False]
    by (auto simp: state_progress_def)
qed

lemma arrows_step_progress: "state_progress a (arrows_step y x d a)"
proof -
  obtain r s where a: "a = (r, s)" by (cases a)
  let ?i1 = "y * st_w s + x"
  let ?i2 = "nat (int ?i1 + adj_dy (adjthan ! d) * int (st_w s) + adj_dx (adjthan ! d))"
  show ?thesis
  proof (cases "clues s ! ?i1 AND adj_f (adjthan ! d) = 0")
    case True
    then show ?thesis
      by (simp add: a arrows_step_def state_progress_refl)
  next
    case False
    define s1 where "s1 = s\<lparr>known := (known s)[?i1 := known s ! ?i1 OR known s ! ?i2]\<rparr>"
    define r1 where "r1 = (if known s ! ?i1 \<noteq> (known s)[?i1 := known s ! ?i1 OR known s ! ?i2] ! ?i1
      then r + 1 else r)"
    define s2 where "s2 = s1\<lparr>st_mask := (st_mask s1)[?i2 := st_mask s1 ! ?i2 AND st_mask s1 ! ?i1]\<rparr>"
    define r2 where "r2 = (if st_mask s1 ! ?i2 \<noteq> (st_mask s1)[?i2 := st_mask s1 ! ?i2 AND st_mask s1 ! ?i1] ! ?i2
      then r1 + 1 else r1)"
    have 1: "state_progress (r, s) (r1, s1)"
      unfolding r1_def s1_def by (rule known_step) (rule bits_le_or)
    have 2: "state_progress (r1, s1) (r2, s2)"
      unfolding r2_def s2_def by (rule mask_step) (rule bits_le_and)
    have "arrows_step y x d a = (r2, s2)"
      using False by (simp add: a arrows_step_def Let_def r2_def s2_def r1_def s1_def)
    then show ?thesis
      using state_progress_trans [OF 1 2] by (simp add: a)
  qed
qed

lemma apply_arrows_progress:
  "state_progress (0, s) (subsets_solve_apply_arrows s)"
  unfolding subsets_solve_apply_arrows_def
  by (rule state_progress_for_edges) (rule arrows_step_progress)

lemma bits_step_progress: "state_progress a (bits_step cube i a)"
proof -
  obtain r s where a: "a = (r, s)" by (cases a)
  obtain newmask newknown where cb: "cube_bounds cube (2 ^ st_n s) i = (newmask, newknown)"
    by (cases "cube_bounds cube (2 ^ st_n s) i")
  define s1 where "s1 = s\<lparr>known := (known s)[i := known s ! i OR newknown]\<rparr>"
  define r1 where "r1 = (if known s ! i \<noteq> (known s)[i := known s ! i OR newknown] ! i then r + 1 else r)"
  define s2 where "s2 = s1\<lparr>st_mask := (st_mask s1)[i := st_mask s1 ! i AND newmask]\<rparr>"
  define r2 where "r2 = (if st_mask s1 ! i \<noteq> (st_mask s1)[i := st_mask s1 ! i AND newmask] ! i
    then r1 + 1 else r1)"
  have 1: "state_progress (r, s) (r1, s1)"
    unfolding r1_def s1_def by (rule known_step) (rule bits_le_or)
  have 2: "state_progress (r1, s1) (r2, s2)"
    unfolding r2_def s2_def by (rule mask_step) (rule bits_le_and)
  have "bits_step cube i a = (r2, s2)"
    by (simp add: a bits_step_def Let_def cb r2_def s2_def r1_def s1_def)
  then show ?thesis
    using state_progress_trans [OF 1 2] by (simp add: a)
qed

lemma bits_from_cube_progress:
  "state_progress (0, s) (subsets_bits_from_cube s cube)"
  unfolding subsets_bits_from_cube_def
  by (rule state_progress_fold) (rule bits_step_progress)


section \<open>Rules on the cube make progress\<close>

lemma cube_le_refl: "cube_le c c"
  by (simp add: cube_le_def)

lemma cube_le_trans: "cube_le c'' c' \<Longrightarrow> cube_le c' c \<Longrightarrow> cube_le c'' c"
  by (auto simp: cube_le_def)

lemma cube_le_kill: "cube_le (kill K c) c"
  by (simp add: cube_le_def kill_length kill_nth)

lemma cube_le_update: "cube_le (c[k := False]) c"
  by (simp add: kill_update_gen cube_le_kill)

lemma cube_le_length: "cube_le c' c \<Longrightarrow> length c' = length c"
  by (simp add: cube_le_def)

lemma cube_size_sum: "cube_size c = sum_list (map (\<lambda>b. if b then 1 else 0) c)"
  unfolding cube_size_def by (induction c) simp_all

lemma cube_le_size: "cube_le c' c \<Longrightarrow> cube_size c' \<le> cube_size c"
  unfolding cube_size_sum
  by (rule sum_list_pointwise) (auto simp: cube_le_def)

lemma cube_le_size_strict:
  assumes "cube_le c' c" "k < length c" "c ! k" "\<not> c' ! k"
  shows "cube_size c' < cube_size c"
  unfolding cube_size_sum
  using assms by (intro sum_list_pointwise_strict [where k = k]) (auto simp: cube_le_def)

lemma cube_progress_refl: "cube_progress a a"
  by (simp add: cube_progress_def cube_le_refl)

lemma cube_progress_trans:
  assumes "cube_progress a a'" "cube_progress a' a''"
  shows "cube_progress a a''"
proof -
  have le: "fst a \<le> fst a'" "fst a' \<le> fst a''"
    using assms by (auto simp: cube_progress_def)
  have cl: "cube_le (snd a') (snd a)" "cube_le (snd a'') (snd a')"
    using assms by (auto simp: cube_progress_def)
  have strict: "cube_size (snd a'') < cube_size (snd a)" if "fst a < fst a''"
  proof (cases "fst a < fst a'")
    case True
    then have "cube_size (snd a') < cube_size (snd a)"
      using assms(1) by (simp add: cube_progress_def)
    then show ?thesis
      using cube_le_size [OF cl(2)] by simp
  next
    case False
    then have "fst a' < fst a''" using that le by simp
    then have "cube_size (snd a'') < cube_size (snd a')"
      using assms(2) by (simp add: cube_progress_def)
    then show ?thesis
      using cube_le_size [OF cl(1)] by simp
  qed
  show ?thesis
    unfolding cube_progress_def using le strict cube_le_trans [OF cl(2,1)] by auto
qed

lemma cube_progress_length: "cube_progress a a' \<Longrightarrow> length (snd a') = length (snd a)"
  by (simp add: cube_progress_def cube_le_def)

lemma cube_progress_fold:
  assumes "\<And>x b. x \<in> set xs \<Longrightarrow> length (snd b) = length (snd a) \<Longrightarrow> cube_progress b (f x b)"
  shows "cube_progress a (fold f xs a)"
proof (rule fold_invariant [where P = "cube_progress a"])
  show "cube_progress a a" by (rule cube_progress_refl)
next
  fix x b assume x: "x \<in> set xs" and b: "cube_progress a b"
  have "cube_progress b (f x b)"
    using x cube_progress_length [OF b] by (rule assms)
  then show "cube_progress a (f x b)"
    using b by (blast intro: cube_progress_trans)
qed

lemma cube_progress_for_edges:
  assumes "\<And>y x d b. y < h \<Longrightarrow> x < w \<Longrightarrow> d < 4 \<Longrightarrow> length (snd b) = length (snd a) \<Longrightarrow>
    cube_progress b (body y x d b)"
  shows "cube_progress a (for_edges w h body a)"
proof (rule for_edges_invariant [where P = "cube_progress a"])
  show "cube_progress a a" by (rule cube_progress_refl)
next
  fix y x :: nat and d :: nat and b
  assume *: "y < h" "x < w" "d < 4" and b: "cube_progress a b"
  have "cube_progress b (body y x d b)"
    using * cube_progress_length [OF b] by (rule assms)
  then show "cube_progress a (body y x d b)"
    using b by (blast intro: cube_progress_trans)
qed

lemma cube_clear_progress:
  assumes "k < length c" "c ! k"
  shows "cube_progress (r, c) (Suc r, c[k := False])"
  unfolding cube_progress_def
  using assms cube_le_size_strict [OF cube_le_update, of k c k]
  by (simp add: cube_le_update)

lemma disjoint_opt_progress:
  assumes "i2 * n2 + opt < length (snd a)"
  shows "cube_progress a (disjoint_opt s n2 i1 i2 opt a)"
  using assms
  by (cases a) (auto simp: disjoint_opt_def cube_progress_refl cube_clear_progress)

lemma disjoint_step_progress:
  assumes "y < st_h s" "x < st_w s" "length (snd a) = st_w s * st_h s * 2 ^ st_n s"
  shows "cube_progress a (disjoint_step s y x d a)"
proof -
  obtain r c where a: "a = (r, c)" by (cases a)
  let ?n2 = "2 ^ st_n s :: nat"
  let ?i1 = "y * st_w s + x"
  let ?i2 = "nat (int ?i1 + adj_dy (adjthan ! d) * int (st_w s) + adj_dx (adjthan ! d))"
  have len: "length c = st_w s * st_h s * ?n2"
    using assms(3) by (simp add: a)
  have i1: "?i1 < st_w s * st_h s"
    using assms(1,2) by (rule cell_yx_less)
  have k0: "?i1 * ?n2 < length c" "?i1 * ?n2 + (?n2 - 1) < length c"
    using cell_index_less [OF i1, of 0 ?n2] cell_index_less [OF i1, of "?n2 - 1" ?n2]
    by (simp_all add: len)
  have ends: "cube_progress (r, c) (r + 1, c[?i1 * ?n2 := False, ?i1 * ?n2 + (?n2 - 1) := False])"
    if "c ! (?i1 * ?n2) \<or> c ! (?i1 * ?n2 + (?n2 - 1))"
  proof -
    let ?c' = "c[?i1 * ?n2 := False, ?i1 * ?n2 + (?n2 - 1) := False]"
    have le: "cube_le ?c' c"
      by (blast intro: cube_le_trans cube_le_update)
    have "?c' = kill {?i1 * ?n2, ?i1 * ?n2 + (?n2 - 1)} c"
      by (simp add: kill_update_gen kill_kill insert_commute)
    then have off: "\<not> ?c' ! (?i1 * ?n2)" "\<not> ?c' ! (?i1 * ?n2 + (?n2 - 1))"
      using kill_nth [OF k0(1), of "{?i1 * ?n2, ?i1 * ?n2 + (?n2 - 1)}"]
        kill_nth [OF k0(2), of "{?i1 * ?n2, ?i1 * ?n2 + (?n2 - 1)}"]
      by simp_all
    from that have "cube_size ?c' < cube_size c"
    proof
      assume "c ! (?i1 * ?n2)"
      then show ?thesis
        using le k0(1) off(1) by (intro cube_le_size_strict [where k = "?i1 * ?n2"])
    next
      assume "c ! (?i1 * ?n2 + (?n2 - 1))"
      then show ?thesis
        using le k0(2) off(2) by (intro cube_le_size_strict [where k = "?i1 * ?n2 + (?n2 - 1)"])
    qed
    then show ?thesis
      using le by (simp add: cube_progress_def)
  qed
  have opts: "cube_progress (r, c) (fold (disjoint_opt s ?n2 ?i1 ?i2) [0..<?n2] (r, c))"
    if "neighbour s ?i1 d = Some ?i2"
  proof (rule cube_progress_fold)
    fix opt and b :: "nat \<times> bool list"
    assume "opt \<in> set [0..<?n2]" and b: "length (snd b) = length (snd (r, c))"
    then have "?i2 * ?n2 + opt < length (snd b)"
      using cell_index_less [OF neighbour_less [OF that], of opt ?n2] by (simp add: len)
    then show "cube_progress b (disjoint_opt s ?n2 ?i1 ?i2 opt b)"
      by (rule disjoint_opt_progress)
  qed
  show ?thesis
    unfolding a disjoint_step_def Let_def
    using ends opts neighbour_cell [OF assms(2), of y d]
    by (auto simp: cube_progress_refl)
qed

lemma subsets_disjoint_progress:
  assumes "length c = st_w s * st_h s * 2 ^ st_n s"
  shows "cube_progress (0, c) (subsets_disjoint s c)"
  unfolding subsets_disjoint_def
  using assms by (intro cube_progress_for_edges disjoint_step_progress) simp_all

lemma advanced_super_progress:
  assumes "i1 * n2 + super < length (snd a)"
  shows "cube_progress a (advanced_super n2 i1 i2 super a)"
  using assms
  by (cases a) (auto simp: advanced_super_def Let_def cube_progress_refl cube_clear_progress)

lemma advanced_step_progress:
  assumes "y < st_h s" "x < st_w s" "length (snd a) = st_w s * st_h s * 2 ^ st_n s"
  shows "cube_progress a (advanced_step s y x d a)"
proof -
  let ?n2 = "2 ^ st_n s :: nat"
  let ?i1 = "y * st_w s + x"
  have i1: "?i1 < st_w s * st_h s"
    using assms(1,2) by (rule cell_yx_less)
  have "cube_progress a (fold (advanced_super ?n2 ?i1 i2) [0..<?n2] a)" for i2
  proof (rule cube_progress_fold)
    fix super and b :: "nat \<times> bool list"
    assume "super \<in> set [0..<?n2]" and b: "length (snd b) = length (snd a)"
    then have "?i1 * ?n2 + super < length (snd b)"
      using cell_index_less [OF i1, of super ?n2] assms(3) by simp
    then show "cube_progress b (advanced_super ?n2 ?i1 i2 super b)"
      by (rule advanced_super_progress)
  qed
  then show ?thesis
    by (simp add: advanced_step_def Let_def cube_progress_refl)
qed

lemma advanced_progress:
  assumes "length c = st_w s * st_h s * 2 ^ st_n s"
  shows "cube_progress (0, c) (subsets_solve_apply_arrows_advanced s c)"
  unfolding subsets_solve_apply_arrows_advanced_def
  using assms by (intro cube_progress_for_edges advanced_step_progress) simp_all

section \<open>Keeping the cube in step with the bounds\<close>

lemma fold_kill_plain:
  assumes "\<And>x c. x \<in> set xs \<Longrightarrow> f x c = kill (K x) c"
  shows "fold f xs c = kill (\<Union>x \<in> set xs. K x) c"
  using assms
proof (induction xs arbitrary: c)
  case Nil
  then show ?case by (simp add: kill_empty)
next
  case (Cons x xs)
  have "fold f xs (f x c) = kill (\<Union>x \<in> set xs. K x) (f x c)"
    using Cons.prems by (intro Cons.IH) simp
  also have "\<dots> = kill (K x \<union> (\<Union>x \<in> set xs. K x)) c"
    using Cons.prems [of x c] by (simp add: kill_kill)
  finally show ?case by simp
qed

lemma sync_cell_kill:
  "sync_cell s n2 i nj c =
    kill (if bits_le (of_nat nj) (st_mask s ! i) \<and> bits_le (known s ! i) (of_nat nj)
          then {} else {i * n2 + nj}) c"
  by (auto simp: sync_cell_def Let_def bits_le_def kill_empty kill_update_gen kill_kill kill_dead
      and.commute)

lemma subsets_sync_cube_kill:
  "subsets_sync_cube s c =
    kill (\<Union>i \<in> {0..<st_w s * st_h s}. \<Union>nj \<in> {0..<2 ^ st_n s}.
            if bits_le (of_nat nj) (st_mask s ! i) \<and> bits_le (known s ! i) (of_nat nj)
            then {} else {i * 2 ^ st_n s + nj}) c"
proof -
  let ?K = "\<lambda>i nj. if bits_le (of_nat nj) (st_mask s ! i) \<and> bits_le (known s ! i) (of_nat nj)
            then {} else {i * 2 ^ st_n s + nj}"
  have inner: "fold (sync_cell s (2 ^ st_n s) i) [0..<2 ^ st_n s] c
      = kill (\<Union>nj \<in> set [0..<2 ^ st_n s]. ?K i nj) c" for i c
    by (rule fold_kill_plain) (rule sync_cell_kill)
  have "fold (\<lambda>i. fold (sync_cell s (2 ^ st_n s) i) [0..<2 ^ st_n s]) [0..<st_w s * st_h s] c
      = kill (\<Union>i \<in> set [0..<st_w s * st_h s]. \<Union>nj \<in> set [0..<2 ^ st_n s]. ?K i nj) c"
    by (rule fold_kill_plain) (rule inner)
  then show ?thesis
    by (simp add: subsets_sync_cube_def Let_def)
qed

lemma subsets_sync_cube_le: "cube_le (subsets_sync_cube s c) c"
  by (simp add: subsets_sync_cube_kill cube_le_kill)

lemma subsets_sync_cube_synced:
  assumes "length c = st_w s * st_h s * 2 ^ st_n s"
  shows "cube_synced s (subsets_sync_cube s c)"
  unfolding cube_synced_def
proof (intro allI impI)
  fix i nj
  assume i: "i < st_w s * st_h s" and nj: "nj < 2 ^ st_n s"
    and on: "subsets_sync_cube s c ! (i * 2 ^ st_n s + nj)"
  have k: "i * 2 ^ st_n s + nj < length c"
    unfolding assms by (rule cell_index_less [OF i nj])
  show "bits_le (of_nat nj) (st_mask s ! i) \<and> bits_le (known s ! i) (of_nat nj)"
  proof (rule ccontr)
    assume "\<not> ?thesis"
    then have "i * 2 ^ st_n s + nj \<in> (\<Union>i \<in> {0..<st_w s * st_h s}. \<Union>nj \<in> {0..<2 ^ st_n s}.
            if bits_le (of_nat nj) (st_mask s ! i) \<and> bits_le (known s ! i) (of_nat nj)
            then {} else {i * 2 ^ st_n s + nj})"
      using i nj by force
    then show False
      using on by (simp add: subsets_sync_cube_kill kill_nth [OF k])
  qed
qed

lemma single_count_cell_kill:
  "single_count_cell s n2 ni j c =
    kill (if st_mask s ! j = known s ! j then {} else {j * n2 + ni}) c"
  by (auto simp: single_count_cell_def kill_empty kill_update_gen kill_dead)

lemma subsets_cube_single_count_kill:
  "subsets_cube_single_count s counts c =
    kill (\<Union>ni \<in> {0..<2 ^ st_n s}. if counts ! ni \<noteq> 1 then {}
            else (\<Union>j \<in> {0..<st_w s * st_h s}.
                    if st_mask s ! j = known s ! j then {} else {j * 2 ^ st_n s + ni})) c"
proof -
  let ?K = "\<lambda>ni j. if st_mask s ! j = known s ! j then {} else {j * 2 ^ st_n s + ni}"
  have inner: "fold (single_count_cell s (2 ^ st_n s) ni) [0..<st_w s * st_h s] c
      = kill (\<Union>j \<in> set [0..<st_w s * st_h s]. ?K ni j) c" for ni c
    by (rule fold_kill_plain) (rule single_count_cell_kill)
  have "fold (\<lambda>ni cube. if counts ! ni \<noteq> 1 then cube
            else fold (single_count_cell s (2 ^ st_n s) ni) [0..<st_w s * st_h s] cube) [0..<2 ^ st_n s] c
      = kill (\<Union>ni \<in> set [0..<2 ^ st_n s]. if counts ! ni \<noteq> 1 then {}
            else (\<Union>j \<in> set [0..<st_w s * st_h s]. ?K ni j)) c"
    by (rule fold_kill_plain) (simp add: inner kill_empty)
  then show ?thesis
    by (simp add: subsets_cube_single_count_def Let_def)
qed

lemma subsets_cube_single_count_le: "cube_le (subsets_cube_single_count s counts c) c"
  by (simp add: subsets_cube_single_count_kill cube_le_kill)

lemma cube_synced_le:
  assumes "cube_synced s c" "cube_le c' c" "length c = st_w s * st_h s * 2 ^ st_n s"
  shows "cube_synced s c'"
  unfolding cube_synced_def
proof (intro allI impI)
  fix i nj
  assume i: "i < st_w s * st_h s" and nj: "nj < 2 ^ st_n s"
    and on: "c' ! (i * 2 ^ st_n s + nj)"
  have "i * 2 ^ st_n s + nj < length c"
    unfolding assms(3) by (rule cell_index_less [OF i nj])
  then have "c ! (i * 2 ^ st_n s + nj)"
    using assms(2) on by (simp add: cube_le_def)
  then show "bits_le (of_nat nj) (st_mask s ! i) \<and> bits_le (known s ! i) (of_nat nj)"
    using assms(1) i nj by (simp add: cube_synced_def)
qed

section \<open>The unique-location rule\<close>

lemma find_single_general:
  "find_single c n2 nj is found = r \<Longrightarrow>
    (found = - 2 \<longrightarrow> r = - 2) \<and>
    (0 \<le> found \<longrightarrow> (r = found \<and> (\<forall>i \<in> set is. \<not> c ! (i * n2 + nj))) \<or> r = - 2) \<and>
    (found = - 1 \<longrightarrow>
       (r = - 1 \<and> (\<forall>i \<in> set is. \<not> c ! (i * n2 + nj))) \<or> r = - 2 \<or>
       (0 \<le> r \<and> nat r \<in> set is \<and> c ! (nat r * n2 + nj) \<and>
        (\<forall>i \<in> set is. c ! (i * n2 + nj) \<longrightarrow> i = nat r)))"
proof (induction "is" arbitrary: found r)
  case Nil
  then show ?case by auto
next
  case (Cons i "is")
  show ?case
  proof (cases "found = - 2")
    case True
    then show ?thesis using Cons.prems by simp
  next
    case f2: False
    show ?thesis
    proof (cases "c ! (i * n2 + nj)")
      case False
      then have "find_single c n2 nj is found = r"
        using Cons.prems f2 by simp
      from Cons.IH [OF this] show ?thesis
        using False f2 by auto
    next
      case True
      show ?thesis
      proof (cases "found = - 1")
        case m1: True
        then have "find_single c n2 nj is (int i) = r"
          using Cons.prems True by simp
        from Cons.IH [OF this] show ?thesis
          using True m1 by auto
      next
        case False
        then have "find_single c n2 nj is (- 2) = r"
          using Cons.prems True f2 by simp
        from Cons.IH [OF this] show ?thesis
          using True False f2 by auto
      qed
    qed
  qed
qed

lemma find_single_found:
  assumes "find_single c n2 nj is (- 1) = r" "0 \<le> r"
  shows "nat r \<in> set is" "c ! (nat r * n2 + nj)" "\<forall>i \<in> set is. c ! (i * n2 + nj) \<longrightarrow> i = nat r"
  using find_single_general [OF assms(1)] assms(2) by auto


lemma single_position_step_inv:
  assumes inv: "single_inv s counts c a" and sized: "sized s" and nj: "nj < 2 ^ st_n s"
  shows "single_inv s counts c (single_position_step counts c nj a)"
proof -
  obtain r t where a: "a = (r, t)" by (cases a)
  have t: "st_w t = st_w s" "st_h t = st_h s" "st_n t = st_n s"
    "length (known t) = length (known s)" "length (st_mask t) = length (st_mask s)"
    using inv by (simp_all add: single_inv_def a)
  define found where "found = find_single c (2 ^ st_n s) nj [0..<st_w s * st_h s] (- 1)"
  show ?thesis
  proof (cases "counts ! nj \<noteq> 0 \<or> found < 0")
    case True
    then have "single_position_step counts c nj a = a"
      by (auto simp: single_position_step_def a Let_def t found_def)
    then show ?thesis using inv by simp
  next
    case False
    then have zero: "counts ! nj = 0" and pos: "0 \<le> found"
      by auto
    define f where "f = nat found"
    have f: "f < st_w s * st_h s" and on: "c ! (f * 2 ^ st_n s + nj)"
      using find_single_found(1,2) [OF found_def [symmetric] pos] by (simp_all add: f_def)
    define t' where "t' = t\<lparr>known := (known t)[f := of_nat nj], st_mask := (st_mask t)[f := of_nat nj]\<rparr>"
    have step: "single_position_step counts c nj a = (r + 1, t')"
      using zero pos by (simp add: single_position_step_def a Let_def t found_def [symmetric] f_def t'_def)
    have len: "f < length (known t)" "f < length (st_mask t)"
      using f sized t by (simp_all add: sized_def)
    have here: "placed s counts c t' f"
      unfolding placed_def using nj on zero len by (auto simp: t'_def)
    have other: "known t' ! i = known t ! i \<and> st_mask t' ! i = st_mask t ! i" if "i \<noteq> f" for i
      using that by (simp add: t'_def)
    have cells: "(known t' ! i = known s ! i \<and> st_mask t' ! i = st_mask s ! i) \<or> placed s counts c t' i"
      if i: "i < st_w s * st_h s" for i
    proof (cases "i = f")
      case True
      then show ?thesis using here by simp
    next
      case False
      have "(known t ! i = known s ! i \<and> st_mask t ! i = st_mask s ! i) \<or> placed s counts c t i"
        using inv i by (simp add: single_inv_def a)
      then show ?thesis
        using other [OF False] by (auto simp: placed_def)
    qed
    have flds: "st_w t' = st_w s" "st_h t' = st_h s" "st_n t' = st_n s"
      "clues t' = clues s" "immutable t' = immutable s"
      "completed t' = completed s" "cheated t' = cheated s"
      "length (known t') = length (known s)" "length (st_mask t') = length (st_mask s)"
      using inv by (simp_all add: single_inv_def a t'_def)
    have ex: "\<exists>i < st_w s * st_h s. placed s counts c t' i"
      using here f by blast
    have all: "\<forall>i < st_w s * st_h s.
        (known t' ! i = known s ! i \<and> st_mask t' ! i = st_mask s ! i) \<or> placed s counts c t' i"
      using cells by blast
    have "single_inv s counts c (Suc r, t')"
      unfolding single_inv_def fst_conv snd_conv
      using flds all ex by simp
    then show ?thesis
      by (simp add: step)
  qed
qed

lemma single_position_inv:
  assumes "sized s"
  shows "single_inv s counts c (subsets_solve_single_position s counts c)"
  unfolding subsets_solve_single_position_def
proof (rule fold_invariant [where P = "single_inv s counts c"])
  show "single_inv s counts c (0, s)"
    by (simp add: single_inv_def)
next
  fix nj a assume "nj \<in> set [0..<2 ^ st_n s]" "single_inv s counts c a"
  then show "single_inv s counts c (single_position_step counts c nj a)"
    using assms by (intro single_position_step_inv) simp_all
qed

lemma single_inv_tighter:
  assumes "single_inv s counts c a" "cube_synced s c" "sized s"
  shows "tighter (snd a) s"
proof -
  have cell: "bits_le (known s ! i) (known (snd a) ! i) \<and> bits_le (st_mask (snd a) ! i) (st_mask s ! i)"
    if "i < st_w s * st_h s" for i
  proof -
    from assms(1) that
    consider "known (snd a) ! i = known s ! i \<and> st_mask (snd a) ! i = st_mask s ! i"
      | "placed s counts c (snd a) i"
      by (auto simp: single_inv_def)
    then show ?thesis
    proof cases
      case 1
      then show ?thesis by (simp add: bits_le_refl)
    next
      case 2
      then show ?thesis
        using assms(2) that by (auto simp: placed_def cube_synced_def)
    qed
  qed
  show ?thesis
    unfolding tighter_def using assms(1,3) cell by (auto simp: single_inv_def sized_def)
qed

lemma unat_candidate: "nj < 2 ^ k \<Longrightarrow> k < 32 \<Longrightarrow> unat (of_nat nj :: uint) = nj"
proof -
  assume a: "nj < 2 ^ k" "k < 32"
  have "(2::nat) ^ k \<le> 2 ^ 32"
    using a(2) by (intro power_increasing) simp_all
  then have "nj < 2 ^ 32" using a(1) by simp
  then show ?thesis
    by (simp add: unat_of_nat)
qed

lemma occurrences_pos:
  assumes "i < st_w s * st_h s" "resolved s i" "unat (known s ! i) = v"
  shows "0 < occurrences s v"
proof -
  have "i \<in> set (filter (\<lambda>i. resolved s i \<and> unat (known s ! i) = v) [0..<st_w s * st_h s])"
    using assms by simp
  then show ?thesis
    unfolding occurrences_def by (rule length_pos_if_in_set)
qed

lemma single_inv_strict:
  assumes inv: "single_inv s counts c a" and sync: "cube_synced s c" and sized: "sized s"
    and n: "st_n s < 32"
    and counts: "\<forall>v < 2 ^ st_n s. counts ! v = int (occurrences s v)"
    and r: "fst a \<noteq> 0"
  shows "bounds_size (snd a) < bounds_size s"
proof -
  obtain i nj where i: "i < st_w s * st_h s" and nj: "nj < 2 ^ st_n s"
    and on: "c ! (i * 2 ^ st_n s + nj)" and zero: "counts ! nj = 0"
    and set: "known (snd a) ! i = of_nat nj" "st_mask (snd a) ! i = of_nat nj"
    using inv r by (auto simp: single_inv_def placed_def)
  have fits: "bits_le (of_nat nj) (st_mask s ! i)" "bits_le (known s ! i) (of_nat nj)"
    using sync i nj on by (simp_all add: cube_synced_def)
  have unres: "known s ! i \<noteq> st_mask s ! i"
  proof
    assume eq: "known s ! i = st_mask s ! i"
    then have "known s ! i = of_nat nj"
      using fits by (intro bits_le_antisym) simp_all
    then have "unat (known s ! i) = nj"
      using unat_candidate [OF nj n] by simp
    then have "0 < occurrences s nj"
      using i eq by (intro occurrences_pos [where i = i]) (simp_all add: resolved_def)
    then show False
      using counts nj zero by simp
  qed
  have t: "tighter (snd a) s"
    using inv sync sized by (rule single_inv_tighter)
  have len: "i < length (known s)" "i < length (st_mask s)"
    using i sized by (simp_all add: sized_def)
  from unres set have "known (snd a) ! i \<noteq> known s ! i \<or> st_mask (snd a) ! i \<noteq> st_mask s ! i"
    by auto
  then show ?thesis
    using tighter_known_strict [OF t len(1)] tighter_mask_strict [OF t len(2)] by blast
qed

section \<open>One pass of the solver loop\<close>

lemma bits_le_ALL_BITS_less:
  assumes "bits_le m (ALL_BITS k)"
  shows "unat m < 2 ^ k"
proof -
  have "take_bit k m = m"
    using assms by (simp add: bits_le_def ALL_BITS_def take_bit_eq_mask mask_eq_exp_minus_1)
  then have "unat m = take_bit k (unat m)"
    by (metis unsigned_take_bit_eq)
  then show ?thesis
    by (metis take_bit_nat_less_exp)
qed

lemma wf_countable:
  assumes "wf_board s"
  shows "countable_board s"
  unfolding countable_board_def
proof (intro ballI impI)
  fix i assume i: "i \<in> {0..<st_w s * st_h s}" and r: "resolved s i"
  have size: "st_w s * st_h s = 2 ^ st_n s"
    using assms by (simp add: wf_board_def)
  have "bits_le (st_mask s ! i) (ALL_BITS (st_n s))"
    using assms i by (simp add: wf_board_def)
  then have "unat (st_mask s ! i) < 2 ^ st_n s"
    by (rule bits_le_ALL_BITS_less)
  then show "unat (known s ! i) < st_w s * st_h s"
    using r by (simp add: size resolved_def)
qed

lemma tighter_wf:
  assumes "wf_board s" "tighter s' s"
  shows "wf_board s'"
proof -
  have same: "st_w s' = st_w s" "st_h s' = st_h s" "st_n s' = st_n s" "clues s' = clues s"
    "immutable s' = immutable s"
    "length (known s') = length (known s)" "length (st_mask s') = length (st_mask s)"
    using assms(2) by (simp_all add: tighter_def)
  have sized: "sized s'"
    using assms(1) by (simp add: wf_board_def sized_def same)
  have mask: "bits_le (st_mask s' ! i) (ALL_BITS (st_n s'))" if "i \<in> {0..<st_w s' * st_h s'}" for i
  proof -
    have i: "i < length (st_mask s)"
      using that assms(1) by (simp add: wf_board_def sized_def same)
    have "bits_le (st_mask s' ! i) (st_mask s ! i)"
      using assms(2) i by (simp add: tighter_def)
    moreover have "bits_le (st_mask s ! i) (ALL_BITS (st_n s))"
      using assms(1) that by (simp add: wf_board_def same)
    ultimately show ?thesis
      unfolding same by (rule bits_le_trans)
  qed
  have arrows: "arrow s' i d = arrow s i d" "neighbour s' i d = neighbour s i d" for i d
    by (simp_all add: arrow_def neighbour_def same Let_def)
  show ?thesis
    unfolding wf_board_def using assms(1) sized mask
    by (simp add: wf_board_def arrows same)
qed

lemma counts_accurate:
  assumes "wf_board s" "fst (subsets_validate s False True) = STATUS_UNFINISHED"
  shows "counts_of (subsets_validate s False True) =
    map (\<lambda>v. int (occurrences s v)) [0..<st_w s * st_h s]"
proof -
  have c: "countable_board s"
    using assms(1) by (rule wf_countable)
  have "\<not> has_duplicate s"
    using assms(2) by (auto simp: subsets_validate_status [OF c] split: if_splits)
  then show ?thesis
    by (simp add: counts_of_def subsets_validate_counts [OF c])
qed

lemma solver_pass_cases:
  assumes sized: "sized s" and len: "length c = st_w s * st_h s * 2 ^ st_n s"
  obtains
    (arrows) s1 c2 where "solver_pass s counts c = (True, s1, c2)"
      "tighter s1 s" "bounds_size s1 < bounds_size s" "cube_le c2 c"
  | (disjoint) c3 where "solver_pass s counts c = (True, s, c3)"
      "cube_le c3 c" "cube_size c3 < cube_size c"
  | (bits) s2 c3 where "solver_pass s counts c = (True, s2, c3)"
      "tighter s2 s" "bounds_size s2 < bounds_size s" "cube_le c3 c"
  | (single) r4 s3 c3 where "solver_pass s counts c = (True, s3, c3)"
      "single_inv s counts c3 (r4, s3)" "r4 \<noteq> 0" "cube_synced s c3" "cube_le c3 c"
  | (advanced) c4 where "solver_pass s counts c = (True, s, c4)"
      "cube_le c4 c" "cube_size c4 < cube_size c"
  | (stop) c4 where "solver_pass s counts c = (False, s, c4)" "cube_le c4 c"
proof -
  define c1 where "c1 = subsets_sync_cube s c"
  define c2 where "c2 = subsets_cube_single_count s counts c1"
  obtain r1 s1 where a: "subsets_solve_apply_arrows s = (r1, s1)"
    by (cases "subsets_solve_apply_arrows s")
  obtain r2 c3 where d: "subsets_disjoint s1 c2 = (r2, c3)"
    by (cases "subsets_disjoint s1 c2")
  obtain r3 s2 where b: "subsets_bits_from_cube s1 c3 = (r3, s2)"
    by (cases "subsets_bits_from_cube s1 c3")
  obtain r4 s3 where p: "subsets_solve_single_position s2 counts c3 = (r4, s3)"
    by (cases "subsets_solve_single_position s2 counts c3")
  obtain r5 c4 where v: "subsets_solve_apply_arrows_advanced s3 c3 = (r5, c4)"
    by (cases "subsets_solve_apply_arrows_advanced s3 c3")
  have pass: "solver_pass s counts c =
    (if r1 \<noteq> 0 then (True, s1, c2)
     else if r2 \<noteq> 0 then (True, s1, c3)
     else if r3 \<noteq> 0 then (True, s2, c3)
     else if r4 \<noteq> 0 then (True, s3, c3)
     else if r5 \<noteq> 0 then (True, s3, c4)
     else (False, s3, c4))"
    by (simp add: solver_pass_def Let_def c1_def [symmetric] c2_def [symmetric] a d b p v)
  have c1: "cube_le c1 c" "cube_synced s c1"
    unfolding c1_def by (rule subsets_sync_cube_le, rule subsets_sync_cube_synced [OF len])
  have c2le1: "cube_le c2 c1"
    unfolding c2_def by (rule subsets_cube_single_count_le)
  have len1: "length c1 = st_w s * st_h s * 2 ^ st_n s"
    using cube_le_length [OF c1(1)] len by simp
  have c2: "cube_le c2 c" "cube_synced s c2"
    using cube_le_trans [OF c2le1 c1(1)] cube_synced_le [OF c1(2) c2le1 len1] by simp_all
  have len2: "length c2 = st_w s * st_h s * 2 ^ st_n s"
    using cube_le_length [OF c2(1)] len by simp
  have pa: "state_progress (0, s) (r1, s1)"
    using apply_arrows_progress [of s] by (simp add: a)
  show ?thesis
  proof (cases "r1 \<noteq> 0")
    case True
    then show ?thesis
      using pa c2(1) pass by (intro arrows [of s1 c2]) (simp_all add: state_progress_def)
  next
    case r1: False
    then have s1: "s1 = s"
      using pa by (simp add: state_progress_def)
    have pd: "cube_progress (0, c2) (r2, c3)"
      using subsets_disjoint_progress [of c2 s] len2 d by (simp add: s1)
    have c3le2: "cube_le c3 c2"
      using pd by (simp add: cube_progress_def)
    have c3: "cube_le c3 c" "cube_synced s c3"
      using cube_le_trans [OF c3le2 c2(1)] cube_synced_le [OF c2(2) c3le2 len2] by simp_all
    have len3: "length c3 = st_w s * st_h s * 2 ^ st_n s"
      using cube_le_length [OF c3(1)] len by simp
    show ?thesis
    proof (cases "r2 \<noteq> 0")
      case True
      then have "cube_size c3 < cube_size c2"
        using pd by (simp add: cube_progress_def)
      then have "cube_size c3 < cube_size c"
        using cube_le_size [OF c2(1)] by simp
      then show ?thesis
        using True r1 c3(1) pass by (intro disjoint [of c3]) (simp_all add: s1)
    next
      case r2: False
      have pb: "state_progress (0, s) (r3, s2)"
        using bits_from_cube_progress [of s c3] b by (simp add: s1)
      show ?thesis
      proof (cases "r3 \<noteq> 0")
        case True
        then show ?thesis
          using pb c3(1) r1 r2 pass by (intro bits [of s2 c3]) (simp_all add: state_progress_def)
      next
        case r3: False
        then have s2: "s2 = s"
          using pb by (simp add: state_progress_def)
        have inv: "single_inv s counts c3 (r4, s3)"
          using single_position_inv [OF sized, of counts c3] p by (simp add: s2)
        show ?thesis
        proof (cases "r4 \<noteq> 0")
          case True
          then show ?thesis
            using inv c3 r1 r2 r3 pass by (intro single [of s3 c3 r4]) simp_all
        next
          case r4: False
          then have s3: "s3 = s"
            using inv by (simp add: single_inv_def)
          have pv: "cube_progress (0, c3) (r5, c4)"
            using advanced_progress [of c3 s] len3 v by (simp add: s3)
          have c4le3: "cube_le c4 c3"
            using pv by (simp add: cube_progress_def)
          have c4: "cube_le c4 c"
            using cube_le_trans [OF c4le3 c3(1)] .
          show ?thesis
          proof (cases "r5 \<noteq> 0")
            case True
            then have "cube_size c4 < cube_size c3"
              using pv by (simp add: cube_progress_def)
            then have "cube_size c4 < cube_size c"
              using cube_le_size [OF c3(1)] by simp
            then show ?thesis
              using True r1 r2 r3 r4 c4 pass by (intro advanced [of c4]) (simp_all add: s3)
          next
            case False
            then show ?thesis
              using r1 r2 r3 r4 c4 pass by (intro stop [of c4]) (simp_all add: s3)
          qed
        qed
      qed
    qed
  qed
qed



lemma solver_pass_decreases:
  assumes wf: "wf_board s" and len: "length c = st_w s * st_h s * 2 ^ st_n s"
    and counts: "\<forall>v < 2 ^ st_n s. counts ! v = int (occurrences s v)"
    and pass: "solver_pass s counts c = (again, s', c')"
  shows "tighter s' s \<and> cube_le c' c \<and>
    (again \<longrightarrow> bounds_size s' + cube_size c' < bounds_size s + cube_size c) \<and>
    (\<not> again \<longrightarrow> s' = s)"
proof -
  have sized: "sized s" and n: "st_n s < 32"
    using wf by (simp_all add: wf_board_def)
  from sized len show ?thesis
  proof (cases rule: solver_pass_cases [where counts = counts])
    case (arrows s1 c2)
    then show ?thesis
      using pass cube_le_size [of c2 c] by auto
  next
    case (disjoint c3)
    then show ?thesis
      using pass by (auto simp: tighter_refl)
  next
    case (bits s2 c3)
    then show ?thesis
      using pass cube_le_size [of c3 c] by auto
  next
    case (single r4 s3 c3)
    have "tighter s3 s"
      using single_inv_tighter [OF single(2,4) sized] by simp
    moreover have "bounds_size s3 < bounds_size s"
      using single_inv_strict [OF single(2,4) sized n counts] single(3) by simp
    ultimately show ?thesis
      using single pass cube_le_size [of c3 c] by auto
  next
    case (advanced c4)
    then show ?thesis
      using pass by (auto simp: tighter_refl)
  next
    case (stop c4)
    then show ?thesis
      using pass by (auto simp: tighter_refl)
  qed
qed

section \<open>The solver loop ends\<close>

lemma tighter_dims:
  assumes "tighter s' s"
  shows "st_w s' * st_h s' * 2 ^ st_n s' = st_w s * st_h s * 2 ^ st_n s"
  using assms by (simp add: tighter_def)

lemma solver_loop_rule:
  fixes I :: "game_state \<Rightarrow> bool list \<Rightarrow> bool"
  assumes wf: "wf_board s" and len: "length c = st_w s * st_h s * 2 ^ st_n s" and I: "I s c"
    and step: "\<And>s c again s' c'. wf_board s \<Longrightarrow> length c = st_w s * st_h s * 2 ^ st_n s \<Longrightarrow>
      I s c \<Longrightarrow> fst (subsets_validate s False True) = STATUS_UNFINISHED \<Longrightarrow>
      solver_pass s (counts_of (subsets_validate s False True)) c = (again, s', c') \<Longrightarrow> I s' c'"
  shows "\<exists>ret s' c'. solver_loop s c = Some (ret, s') \<and> wf_board s' \<and> tighter s' s \<and>
    length c' = length c \<and> I s' c' \<and> ret = fst (subsets_validate s' False True)"
  using wf len I
proof (induction "bounds_size s + cube_size c" arbitrary: s c rule: less_induct)
  case less
  let ?v = "subsets_validate s False True"
  show ?case
  proof (cases "fst ?v = STATUS_UNFINISHED")
    case False
    then have "solver_loop s c = Some (fst ?v, s)"
      by (subst solver_loop.simps) (simp add: Let_def)
    then show ?thesis
      using less.prems tighter_refl by blast
  next
    case True
    obtain again s' c' where pass: "solver_pass s (counts_of ?v) c = (again, s', c')"
      by (cases "solver_pass s (counts_of ?v) c")
    have size: "st_w s * st_h s = 2 ^ st_n s"
      using less.prems(1) by (simp add: wf_board_def)
    have counts: "\<forall>v < 2 ^ st_n s. counts_of ?v ! v = int (occurrences s v)"
      using counts_accurate [OF less.prems(1) True] by (simp add: size)
    have dec: "tighter s' s" "cube_le c' c"
      "again \<longrightarrow> bounds_size s' + cube_size c' < bounds_size s + cube_size c"
      "\<not> again \<longrightarrow> s' = s"
      using solver_pass_decreases [OF less.prems(1,2) counts pass] by simp_all
    have wf': "wf_board s'"
      using less.prems(1) dec(1) by (rule tighter_wf)
    have len': "length c' = st_w s' * st_h s' * 2 ^ st_n s'"
      using cube_le_length [OF dec(2)] less.prems(2) tighter_dims [OF dec(1)] by simp
    have I': "I s' c'"
      using less.prems True pass by (rule step)
    have unfold: "solver_loop s c = (if again then solver_loop s' c' else Some (STATUS_UNFINISHED, s'))"
      using True pass by (subst solver_loop.simps) (simp add: Let_def)
    show ?thesis
    proof (cases again)
      case False
      then have "s' = s" using dec(4) by simp
      then show ?thesis
        using False unfold wf' dec(1) I' True cube_le_length [OF dec(2)] by auto
    next
      case again: True
      then have "bounds_size s' + cube_size c' < bounds_size s + cube_size c"
        using dec(3) by simp
      from less.hyps [OF this wf' len' I']
      obtain ret s'' c'' where r: "solver_loop s' c' = Some (ret, s'')" "wf_board s''"
        "tighter s'' s'" "length c'' = length c'" "I s'' c''"
        "ret = fst (subsets_validate s'' False True)"
        by blast
      have "tighter s'' s"
        using r(3) dec(1) by (rule tighter_trans)
      moreover have "length c'' = length c"
        using r(4) cube_le_length [OF dec(2)] by simp
      ultimately show ?thesis
        using r again unfold by auto
    qed
  qed
qed

section \<open>The whole solver\<close>

lemma reset_cell_wf:
  assumes "wf_board st"
  shows "wf_board (st\<lparr>known := (known st)[i := 0], st_mask := (st_mask st)[i := ALL_BITS (st_n st)]\<rparr>)"
    (is "wf_board ?t")
proof -
  have arrows: "arrow ?t j d = arrow st j d" "neighbour ?t j d = neighbour st j d" for j d
    by (simp_all add: arrow_def neighbour_def Let_def)
  have mask: "bits_le (st_mask ?t ! j) (ALL_BITS (st_n st))" if "j \<in> {0..<st_w st * st_h st}" for j
  proof -
    have "j < length (st_mask st)" and old: "bits_le (st_mask st ! j) (ALL_BITS (st_n st))"
      using assms that by (simp_all add: wf_board_def sized_def)
    then show ?thesis
      by (simp add: nth_update_cases bits_le_refl)
  qed
  have "sized ?t"
    using assms by (simp add: wf_board_def sized_def)
  then show ?thesis
    using assms mask unfolding wf_board_def by (simp add: arrows)
qed

lemma solver_reset_wf:
  assumes "wf_board s"
  shows "wf_board (solver_reset s)"
  unfolding solver_reset_def
proof (rule fold_invariant [where P = wf_board])
  show "wf_board s" by (rule assms)
next
  fix i st assume "wf_board st"
  then show "wf_board (if immutable st ! i \<noteq> 0 then st
      else st\<lparr>known := (known st)[i := 0], st_mask := (st_mask st)[i := ALL_BITS (st_n st)]\<rparr>)"
    using reset_cell_wf [of st i] by simp
qed

lemma solver_reset_dims:
  "st_w (solver_reset s) = st_w s \<and> st_h (solver_reset s) = st_h s \<and> st_n (solver_reset s) = st_n s \<and>
   clues (solver_reset s) = clues s \<and> immutable (solver_reset s) = immutable s"
  unfolding solver_reset_def
  by (rule fold_invariant [where P = "\<lambda>st. st_w st = st_w s \<and> st_h st = st_h s \<and> st_n st = st_n s \<and>
     clues st = clues s \<and> immutable st = immutable s"]) simp_all

lemma subsets_solve_game_returns:
  assumes "wf_board s"
  shows "\<exists>ret s'. subsets_solve_game s = Some (ret, s') \<and> wf_board s' \<and>
    tighter s' (solver_reset s) \<and> ret = fst (subsets_validate s' False True)"
proof -
  have wf: "wf_board (solver_reset s)"
    using assms by (rule solver_reset_wf)
  have len: "length (replicate (st_w s * st_h s * 2 ^ st_n s) True) =
      st_w (solver_reset s) * st_h (solver_reset s) * 2 ^ st_n (solver_reset s)"
    by (simp add: solver_reset_dims)
  from solver_loop_rule [where I = "\<lambda>_ _. True", OF wf len]
  obtain ret s' c' where "solver_loop (solver_reset s) (replicate (st_w s * st_h s * 2 ^ st_n s) True) = Some (ret, s')"
    "wf_board s'" "tighter s' (solver_reset s)" "ret = fst (subsets_validate s' False True)"
    by blast
  then show ?thesis
    unfolding subsets_solve_game_def by blast
qed

lemma complete_any_buffers:
  assumes "wf_board s" "fst (subsets_validate s False True) = STATUS_COMPLETE"
  shows "fst (subsets_validate s hf hc) = STATUS_COMPLETE"
  using assms(2) by (simp add: subsets_validate_status [OF wf_countable [OF assms(1)]] split: if_splits)



lemma wf_board_code [code]:
  "wf_board s =
    (sized s \<and> st_w s * st_h s = 2 ^ st_n s \<and> st_n s < 32 \<and>
     list_all (\<lambda>i. bits_le (st_mask s ! i) (ALL_BITS (st_n s))) [0..<st_w s * st_h s] \<and>
     list_all (\<lambda>i. list_all (\<lambda>d. arrow s i d \<longrightarrow> neighbour s i d \<noteq> None) [0..<4])
       [0..<st_w s * st_h s])"
  by (simp add: wf_board_def list_all_iff)

section \<open>Errors of the description parser\<close>

lemma load_flags_rest:
  "\<exists>c'. load_flags c p = Inr (c', dropWhile flag_letter p)"
  by (induction c p rule: load_flags.induct) (auto simp: flag_letter_def)

lemma load_value_not_flag_error:
  "load_value s n i p state \<noteq> Inl ''Expecting flag URDL in game description''"
  by (simp add: load_value_def Let_def)

lemma load_cell_not_flag_error:
  "load_cell s n i p state \<noteq> Inl ''Expecting flag URDL in game description''"
proof (cases "load_value s n i p state")
  case (Inl e)
  then show ?thesis
    using load_value_not_flag_error [of s n i p state] by (simp add: load_cell_def)
next
  case (Inr r)
  obtain p1 state1 where r: "r = (p1, state1)" by (cases r)
  obtain c where "load_flags (clues state1 ! i) p1 = Inr (c, dropWhile flag_letter p1)"
    using load_flags_rest by blast
  then show ?thesis
    using Inr r by (simp add: load_cell_def)
qed

lemma load_cells_not_flag_error:
  "load_cells s n i p state \<noteq> Inl ''Expecting flag URDL in game description''"
proof (induction s n i p state rule: load_cells.induct)
  case (1 s n i p state)
  show ?case
  proof (cases "p = []")
    case True
    then show ?thesis
      by (subst load_cells.simps) simp
  next
    case False
    show ?thesis
    proof (cases "load_cell s n i p state")
      case (Inl e)
      then show ?thesis
        using False load_cell_not_flag_error [of s n i p state]
        by (subst load_cells.simps) simp
    next
      case (Inr r)
      obtain p' state' where r: "r = (p', state')" by (cases r)
      have "load_cells s n (i + 1) p' state' \<noteq> Inl ''Expecting flag URDL in game description''"
        using 1 [OF False] Inr r by simp
      then show ?thesis
        using False Inr r by (subst load_cells.simps) simp
    qed
  qed
qed

lemma check_flag_not_flag_error:
  "for_edges w h (check_flag state w h) None \<noteq> Some ''Expecting flag URDL in game description''"
  by (rule for_edges_invariant [where P = "\<lambda>err. err \<noteq> Some ''Expecting flag URDL in game description''"])
    (auto simp: check_flag_def Let_def split: option.splits)

lemma attempt_load_game_not_flag_error:
  "attempt_load_game state desc \<noteq> Inl ''Expecting flag URDL in game description''"
  using load_cells_not_flag_error [of "st_w state * st_w state" "st_n state" 0 desc state]
    check_flag_not_flag_error
  by (auto simp: attempt_load_game_def Let_def split: sum.splits option.splits)

lemma load_cells_expecting_number:
  assumes "p \<noteq> []" "i < s" "\<not> is_digit (hd p)" "hd p \<noteq> CHR ''_''"
  shows "load_cells s n i p state = Inl ''Expecting number in game description''"
  using assms by (subst load_cells.simps) (simp add: load_cell_def load_value_def)

lemma load_cells_step:
  assumes "p \<noteq> []" "load_cell s n i p state = Inr (p', state')"
  shows "load_cells s n i p state = load_cells s n (i + 1) p' state'"
  using assms by (subst load_cells.simps) simp

lemma load_cells_after_cell:
  assumes p: "p \<noteq> []" and v: "load_value s n i p state = Inr (p1, state1)"
    and rest: "dropWhile flag_letter p1 = ch # rest" and ch: "ch \<noteq> CHR '',''"
  shows "load_cells s n i p state =
    Inl (if i + 1 < s then ''Missing separator'' else ''Too much data to fill grid'')"
proof -
  obtain c where f: "load_flags (clues state1 ! i) p1 = Inr (c, ch # rest)"
    using load_flags_rest [of "clues state1 ! i" p1] rest by auto
  show ?thesis
  proof (cases "i + 1 < s")
    case True
    then have "load_cell s n i p state = Inl ''Missing separator''"
      using v f ch by (simp add: load_cell_def)
    then show ?thesis
      using p True by (subst load_cells.simps) simp
  next
    case False
    then have "load_cell s n i p state = Inr (ch # rest, state1\<lparr>clues := (clues state1)[i := c]\<rparr>)"
      using v f ch by (simp add: load_cell_def)
    then have "load_cells s n i p state =
        load_cells s n (i + 1) (ch # rest) (state1\<lparr>clues := (clues state1)[i := c]\<rparr>)"
      using p by (rule load_cells_step [rotated])
    also have "\<dots> = Inl ''Too much data to fill grid''"
      using False by (subst load_cells.simps) (simp add: load_cell_def load_value_def)
    finally show ?thesis
      using False by simp
  qed
qed

lemma attempt_load_game_error:
  assumes "load_cells (st_w state * st_w state) (st_n state) 0 desc state = Inl e"
  shows "attempt_load_game state desc = Inl e"
  using assms by (simp add: attempt_load_game_def Let_def)

lemma loop_at_load_cells:
  assumes "loop_at s n a b"
  shows "load_cells s n (fst a) (fst (snd a)) (snd (snd a)) =
    load_cells s n (fst b) (fst (snd b)) (snd (snd b))"
  using assms
proof (induction rule: loop_at.induct)
  case (start s n a)
  show ?case by simp
next
  case (step s n a i p state p' state')
  then show ?case
    using load_cells_step [of p s n i state p' state'] by simp
qed

lemma attempt_load_game_at:
  assumes "loop_at (st_w state * st_w state) (st_n state) (0, desc, state) (i, p, st)"
    and "load_cells (st_w state * st_w state) (st_n state) i p st = Inl e"
  shows "attempt_load_game state desc = Inl e"
proof -
  have "load_cells (st_w state * st_w state) (st_n state) 0 desc state = Inl e"
    using loop_at_load_cells [OF assms(1)] assms(2) by simp
  then show ?thesis
    by (rule attempt_load_game_error)
qed

lemma load_cells_too_much:
  assumes "p \<noteq> []" "s \<le> i"
  shows "load_cells s n i p state = Inl ''Too much data to fill grid''"
  using assms by (subst load_cells.simps) (simp add: load_cell_def load_value_def)

section \<open>Claims about the validator\<close>

text \<open>
  Claim C3, as amended. On a board whose arrays have \<open>w * h\<close> cells and whose resolved
  values index the counts, \<^verbatim>\<open>subsets_validate\<close> returns the worst status that holds
  (invalid for a duplicated value or a violated edge, else unfinished for an unresolved
  cell, else complete) whenever a flags or a counts buffer is supplied or every cell is
  resolved; with neither buffer and an unresolved cell it returns unfinished at once,
  whatever else is wrong. A supplied counts buffer holds in \<open>counts[v]\<close> the number of
  resolved cells of value \<open>v\<close> when flags are supplied too or no value is duplicated.
\<close>

theorem subsets_validate_verdict:
  assumes "sized s" and "countable_board s"
  shows "fst (subsets_validate s hasflags hascounts) =
      (if \<not> hasflags \<and> \<not> hascounts \<and> has_unresolved s then STATUS_UNFINISHED
       else if has_duplicate s \<or> has_violation s then STATUS_INVALID
       else if has_unresolved s then STATUS_UNFINISHED
       else STATUS_COMPLETE)
    \<and> (hasflags \<or> \<not> has_duplicate s \<longrightarrow>
        snd (snd (subsets_validate s hasflags True)) =
          Some (map (\<lambda>v. int (occurrences s v)) [0..<st_w s * st_h s]))"
  using assms(2) by (simp add: subsets_validate_status subsets_validate_counts)

theorem subsets_validate_verdict_witness:
  "sized broken_arrow_board \<and> countable_board broken_arrow_board \<and>
   has_unresolved broken_arrow_board \<and> has_violation broken_arrow_board \<and>
   fst (subsets_validate broken_arrow_board False True) = STATUS_INVALID \<and>
   fst (subsets_validate broken_arrow_board False False) = STATUS_UNFINISHED \<and>
   snd (snd (subsets_validate broken_arrow_board True True)) =
     Some [0, 1, 1, 0, 0, 0, 0, 0, 0, 0, 0, 0, 0, 0, 0, 0]"
proof -
  have h: "sized broken_arrow_board" "countable_board broken_arrow_board"
    by code_simp+
  have f: "has_unresolved broken_arrow_board" "has_violation broken_arrow_board"
    by code_simp+
  have o: "map (\<lambda>v. int (occurrences broken_arrow_board v))
      [0..<st_w broken_arrow_board * st_h broken_arrow_board]
      = [0, 1, 1, 0, 0, 0, 0, 0, 0, 0, 0, 0, 0, 0, 0, 0]"
    by code_simp
  show ?thesis
    using subsets_validate_verdict [OF h, of False True]
      subsets_validate_verdict [OF h, of False False]
      subsets_validate_verdict [OF h, of True True] h f o
    by simp
qed

text \<open>
  Where claim C3 fails as it is written: on \<open>doubled_board\<close> the value 1 is held twice
  and other cells are unresolved. Without buffers the verdict is unfinished, with them
  it is invalid; and with a counts buffer but no flags buffer counting stops at the
  duplicate, so the resolved cell holding 2 is never counted.
\<close>

theorem subsets_validate_verdict_counterexample:
  "fst (subsets_validate doubled_board False False) = STATUS_UNFINISHED \<and>
   fst (subsets_validate doubled_board True True) = STATUS_INVALID \<and>
   occurrences doubled_board 2 = 1 \<and>
   snd (snd (subsets_validate doubled_board False True)) =
     Some [0, 2, 0, 0, 0, 0, 0, 0, 0, 0, 0, 0, 0, 0, 0, 0]"
  by code_simp


lemma neighbour_order:
  assumes "neighbour s i d = Some j" "d < 4"
  shows "(int (i mod st_w s) + adj_dx (adjthan ! d) < int (i mod st_w s) \<or>
          int (i div st_w s) + adj_dy (adjthan ! d) < int (i div st_w s)) = (j < i)"
    and "j \<noteq> i"
proof -
  define x where "x = i mod st_w s"
  define y where "y = i div st_w s"
  have i: "i = y * st_w s + x"
    by (simp add: x_def y_def)
  have j: "j = nat (int y + adj_dy (adjthan ! d)) * st_w s + nat (int x + adj_dx (adjthan ! d))"
    and grid: "0 \<le> int x + adj_dx (adjthan ! d)" "int x + adj_dx (adjthan ! d) < int (st_w s)"
      "0 \<le> int y + adj_dy (adjthan ! d)"
    using assms(1) by (auto simp: neighbour_def Let_def x_def y_def split: if_splits)
  have w: "0 < st_w s"
    using grid by (cases "st_w s") auto
  have "d \<in> {0, Suc 0, 2, 3}"
    using assms(2) by auto
  then have "((int x + adj_dx (adjthan ! d) < int x \<or> int y + adj_dy (adjthan ! d) < int y) = (j < i))
      \<and> j \<noteq> i"
  proof (elim insertE emptyE)
    assume d: "d = 0"
    then have "0 < y" using grid by (simp add: adjthan_nth)
    then obtain y' where "y = Suc y'" by (cases y) auto
    then show ?thesis
      using w by (simp add: i j d adjthan_nth)
  next
    assume d: "d = Suc 0"
    show ?thesis
      by (simp add: i j d adjthan_nth nat_add_distrib)
  next
    assume d: "d = 2"
    show ?thesis
      using w by (simp add: i j d adjthan_nth nat_add_distrib)
  next
    assume d: "d = 3"
    then have "0 < x" using grid by (simp add: adjthan_nth)
    then obtain x' where "x = Suc x'" by (cases x) auto
    then show ?thesis
      by (simp add: i j d adjthan_nth)
  qed
  then show "(int (i mod st_w s) + adj_dx (adjthan ! d) < int (i mod st_w s) \<or>
          int (i div st_w s) + adj_dy (adjthan ! d) < int (i div st_w s)) = (j < i)"
    and "j \<noteq> i"
    by (simp_all add: x_def y_def)
qed

lemma dir_check_neighbour:
  assumes "neighbour s i d = Some j" "d < 4" "resolved s j"
  shows "dir_check s (i div st_w s) (i mod st_w s) d =
    (if arrow s i d then known s ! i AND known s ! j \<noteq> known s ! j
     else i < j \<and> \<not> arrow s j (opposite d) \<and>
          (known s ! i AND known s ! j = known s ! j \<or> known s ! i AND known s ! j = known s ! i))"
proof -
  have grid: "\<not> (int (i mod st_w s) + adj_dx (adjthan ! d) < 0 \<or>
      int (i mod st_w s) + adj_dx (adjthan ! d) \<ge> int (st_w s) \<or>
      int (i div st_w s) + adj_dy (adjthan ! d) < 0 \<or>
      int (i div st_w s) + adj_dy (adjthan ! d) \<ge> int (st_h s))"
    and j: "nat (int (i div st_w s) + adj_dy (adjthan ! d)) * st_w s +
      nat (int (i mod st_w s) + adj_dx (adjthan ! d)) = j"
    using assms(1) by (auto simp: neighbour_def Let_def split: if_splits)
  have ord: "(int (i mod st_w s) + adj_dx (adjthan ! d) < int (i mod st_w s) \<or>
          int (i div st_w s) + adj_dy (adjthan ! d) < int (i div st_w s)) = (j < i)"
    and ne: "j \<noteq> i"
    using neighbour_order [OF assms(1,2)] by simp_all
  have "dir_check s (i div st_w s) (i mod st_w s) d =
      (resolved s j \<and> \<not> (\<not> arrow s i d \<and> j < i) \<and>
       (if arrow s i d then known s ! i AND known s ! j \<noteq> known s ! j
        else \<not> arrow s j (opposite d) \<and>
          (known s ! i AND known s ! j = known s ! j \<or> known s ! i AND known s ! j = known s ! i)))"
    unfolding dir_check_def Let_def
    using grid ord by (simp add: j resolved_def arrow_def adj_f_opposite [OF assms(2)])
  then show ?thesis
    using assms(3) ne by auto
qed

text \<open>
  Claim C4, as amended. Let \<open>i\<close> and its neighbour \<open>j\<close> in direction \<open>d\<close> be resolved
  and \<open>x = value(i) & value(j)\<close>. If \<open>clues[i]\<close> carries the arrow toward \<open>j\<close>, a supplied
  flags buffer marks the edge on \<open>i\<close> exactly when \<open>x \<noteq> value(j)\<close>. If neither cell carries
  an arrow toward the other, the edge is marked on \<open>i\<close> exactly when \<open>i\<close> is the earlier
  cell in row-major order and \<open>x\<close> equals one of the two values. In both cases a failed
  test makes the status invalid, unless the validator was called without any buffer on
  a board that has an unresolved cell (it then returns unfinished before looking at
  any edge).
\<close>

theorem validate_edge_checks:
  assumes "sized s" and "countable_board s"
    and "i < st_w s * st_h s" and "d < 4" and "neighbour s i d = Some j"
    and "resolved s i" and "resolved s j"
  shows "(arrow s i d \<longrightarrow>
      edge_flagged s hascounts i d = (known s ! i AND known s ! j \<noteq> known s ! j) \<and>
      (known s ! i AND known s ! j \<noteq> known s ! j \<and> (hf \<or> hc \<or> \<not> has_unresolved s) \<longrightarrow>
       fst (subsets_validate s hf hc) = STATUS_INVALID))
    \<and> (\<not> arrow s i d \<and> \<not> arrow s j (opposite d) \<longrightarrow>
      edge_flagged s hascounts i d =
        (i < j \<and> (known s ! i AND known s ! j = known s ! i \<or>
                  known s ! i AND known s ! j = known s ! j)) \<and>
      ((known s ! i AND known s ! j = known s ! i \<or> known s ! i AND known s ! j = known s ! j)
        \<and> (hf \<or> hc \<or> \<not> has_unresolved s) \<longrightarrow>
       fst (subsets_validate s hf hc) = STATUS_INVALID))"
proof -
  obtain fl where fl: "fst (snd (subsets_validate s True hascounts)) = Some fl"
    and bits: "\<And>i d. i < st_w s * st_h s \<Longrightarrow> d < 4 \<Longrightarrow>
      (fl ! i AND adj_f (adjthan ! d) \<noteq> 0) =
      (resolved s i \<and> dir_check s (i div st_w s) (i mod st_w s) d)"
    using subsets_validate_flags_ex [of s hascounts] by blast
  have flagged: "edge_flagged s hascounts i d =
    (if arrow s i d then known s ! i AND known s ! j \<noteq> known s ! j
     else i < j \<and> \<not> arrow s j (opposite d) \<and>
          (known s ! i AND known s ! j = known s ! j \<or> known s ! i AND known s ! j = known s ! i))"
    using bits [OF assms(3,4)] assms(6) dir_check_neighbour [OF assms(5,4,7)]
    by (simp add: edge_flagged_def fl)
  have viol: "edge_violated s i d =
    (if arrow s i d then known s ! i AND known s ! j \<noteq> known s ! j
     else \<not> arrow s j (opposite d) \<and>
          (known s ! i AND known s ! j = known s ! j \<or> known s ! i AND known s ! j = known s ! i))"
    using assms(5,6,7) by (simp add: edge_violated_def Let_def)
  have inv: "fst (subsets_validate s hf hc) = STATUS_INVALID"
    if "edge_violated s i d" "hf \<or> hc \<or> \<not> has_unresolved s"
  proof -
    have "i \<in> {0..<st_w s * st_h s} \<and> d \<in> {0..<4} \<and> edge_violated s i d"
      using that(1) assms(3,4) by simp
    then have "has_violation s"
      unfolding has_violation_def by blast
    then show ?thesis
      using that(2) by (auto simp: subsets_validate_status [OF assms(2)])
  qed
  show ?thesis
    using flagged viol inv by auto
qed

theorem validate_edge_checks_witness:
  "sized broken_arrow_board \<and> countable_board broken_arrow_board \<and>
   neighbour broken_arrow_board 1 3 = Some 0 \<and>
   resolved broken_arrow_board 1 \<and> resolved broken_arrow_board 0 \<and>
   arrow broken_arrow_board 1 3 \<and>
   known broken_arrow_board ! 1 AND known broken_arrow_board ! 0 \<noteq> known broken_arrow_board ! 0 \<and>
   edge_flagged broken_arrow_board True 1 3 \<and>
   fst (subsets_validate broken_arrow_board False True) = STATUS_INVALID"
proof -
  have h: "sized broken_arrow_board" "countable_board broken_arrow_board"
    "1 < st_w broken_arrow_board * st_h broken_arrow_board" "(3::nat) < 4"
    "neighbour broken_arrow_board 1 3 = Some 0"
    "resolved broken_arrow_board 1" "resolved broken_arrow_board 0"
    by code_simp+
  have f: "arrow broken_arrow_board 1 3"
    "known broken_arrow_board ! 1 AND known broken_arrow_board ! 0 \<noteq> known broken_arrow_board ! 0"
    by code_simp+
  show ?thesis
    using validate_edge_checks [OF h, of True False True] h f by simp
qed

text \<open>
  Where claim C4 fails as it is written: on \<open>broken_arrow_board\<close> cell 1 carries an arrow
  toward cell 0, both are resolved and the value of cell 0 is not contained in that of
  cell 1, yet the validator called without buffers (as \<^verbatim>\<open>execute_move\<close> calls it)
  reports unfinished, not invalid.
\<close>

theorem validate_edge_checks_counterexample:
  "neighbour broken_arrow_board 1 3 = Some 0 \<and>
   resolved broken_arrow_board 1 \<and> resolved broken_arrow_board 0 \<and>
   arrow broken_arrow_board 1 3 \<and>
   known broken_arrow_board ! 1 AND known broken_arrow_board ! 0 \<noteq> known broken_arrow_board ! 0 \<and>
   fst (subsets_validate broken_arrow_board False False) = STATUS_UNFINISHED"
  by code_simp


lemma bit_one_shift: "k < 32 \<Longrightarrow> bit (2 ^ k :: uint) m = (m = k)"
  by (auto simp: bit_exp_iff possible_bit_word)

lemma bit_set_word: "k < 32 \<Longrightarrow> bit ((a :: uint) OR push_bit k 1) m = (bit a m \<or> m = k)"
  by (simp add: bit_or_iff bit_one_shift)

lemma bit_clear_word: "k < 32 \<Longrightarrow> bit ((a :: uint) AND NOT (push_bit k 1)) m = (bit a m \<and> m \<noteq> k)"
  by (auto simp: bit_and_iff bit_not_iff bit_one_shift dest: bit_imp_le_length)

lemma apply_bit_move_frame:
  assumes "pos < length (known ret)" "pos < length (st_mask ret)" "k < 32"
    and "type = CHR ''K'' \<or> type = CHR ''C'' \<or> type = CHR ''U''"
  defines "ret' \<equiv> apply_bit_move type pos k ret"
  shows "st_w ret' = st_w ret" "st_h ret' = st_h ret" "st_n ret' = st_n ret"
    "clues ret' = clues ret" "immutable ret' = immutable ret"
    "completed ret' = completed ret" "cheated ret' = cheated ret"
    "length (known ret') = length (known ret)" "length (st_mask ret') = length (st_mask ret)"
    "\<forall>i. i \<noteq> pos \<longrightarrow> known ret' ! i = known ret ! i \<and> st_mask ret' ! i = st_mask ret ! i"
    "\<forall>m. m \<noteq> k \<longrightarrow> bit (known ret' ! pos) m = bit (known ret ! pos) m \<and>
                    bit (st_mask ret' ! pos) m = bit (st_mask ret ! pos) m"
    "type = CHR ''K'' \<longrightarrow> bit (known ret' ! pos) k \<and> bit (st_mask ret' ! pos) k"
    "type = CHR ''C'' \<longrightarrow> \<not> bit (known ret' ! pos) k \<and> \<not> bit (st_mask ret' ! pos) k"
    "type = CHR ''U'' \<longrightarrow> \<not> bit (known ret' ! pos) k \<and> bit (st_mask ret' ! pos) k"
  using assms(1-4) unfolding ret'_def apply_bit_move_def Let_def
  by (auto simp del: push_bit_of_1 simp add: bit_set_word bit_clear_word)

lemma apply_bit_move_ordered:
  assumes "pos < length (known ret)" "pos < length (st_mask ret)" "k < 32"
    and "known ret ! i AND st_mask ret ! i = known ret ! i"
  shows "known (apply_bit_move type pos k ret) ! i AND st_mask (apply_bit_move type pos k ret) ! i
    = known (apply_bit_move type pos k ret) ! i"
proof (cases "i = pos")
  case False
  then show ?thesis
    using assms(4) by (simp add: apply_bit_move_def Let_def)
next
  case True
  have sub: "\<And>m. bit (known ret ! pos) m \<Longrightarrow> bit (st_mask ret ! pos) m"
    using assms(4) True by (metis bit_and_iff)
  have K: "(a OR push_bit k 1) AND (b OR push_bit k 1) = a OR push_bit k 1"
    if "\<And>m. bit a m \<Longrightarrow> bit b m" for a b :: uint
    by (rule bit_eqI) (auto simp del: push_bit_of_1 simp add: bit_and_iff bit_set_word [OF assms(3)] dest: that)
  have C: "(a AND NOT (push_bit k 1)) AND (b AND NOT (push_bit k 1)) = a AND NOT (push_bit k 1)"
    if "\<And>m. bit a m \<Longrightarrow> bit b m" for a b :: uint
    by (rule bit_eqI) (auto simp del: push_bit_of_1 simp add: bit_and_iff bit_clear_word [OF assms(3)] dest: that)
  have U: "(a AND NOT (push_bit k 1)) AND (b OR push_bit k 1) = a AND NOT (push_bit k 1)"
    if "\<And>m. bit a m \<Longrightarrow> bit b m" for a b :: uint
    by (rule bit_eqI)
      (auto simp del: push_bit_of_1 simp add: bit_and_iff bit_clear_word [OF assms(3)] bit_set_word [OF assms(3)] dest: that)
  show ?thesis
    using assms(1,2) True K [OF sub] C [OF sub] U [OF sub] assms(4)
    by (simp del: push_bit_of_1 add: apply_bit_move_def Let_def)
qed

lemma dup_game_sized: "sized s \<Longrightarrow> dup_game s = s"
  by (simp add: dup_game_def sized_def)

text \<open>
  Claim C10, as amended. An accepted player move \<^verbatim>\<open><op><pos>,<bit>\<close> returns a state
  that differs from the one passed in only in bit \<^verbatim>\<open>bit\<close> of \<^verbatim>\<open>known[pos]\<close> and
  \<^verbatim>\<open>mask[pos]\<close> (K sets it in both, C clears it in both, U clears it in \<^verbatim>\<open>known\<close> and sets
  it in \<^verbatim>\<open>mask\<close>) and in the \<^verbatim>\<open>completed\<close> flag, which is raised when the validator
  finds the new board complete. The dimensions, \<^verbatim>\<open>clues\<close>, \<^verbatim>\<open>immutable\<close>, \<^verbatim>\<open>cheated\<close>
  and the bounds of every other cell are unchanged, and \<open>known[i] \<subseteq> mask[i]\<close> holds for
  every cell afterwards if it held before.
\<close>

theorem execute_move_frame:
  assumes "sized s" and "st_n s \<le> 32"
    and "type = CHR ''K'' \<or> type = CHR ''C'' \<or> type = CHR ''U''"
    and "0 \<le> pos" and "pos < int (st_w s * st_h s)"
    and "0 \<le> k" and "k < int (st_n s)"
    and "immutable s ! nat pos AND push_bit (nat k) 1 = 0"
  shows "\<exists>s'. execute_move s (move_string type pos k) = (s, Some s') \<and>
    st_w s' = st_w s \<and> st_h s' = st_h s \<and> st_n s' = st_n s \<and>
    clues s' = clues s \<and> immutable s' = immutable s \<and> cheated s' = cheated s \<and>
    length (known s') = length (known s) \<and> length (st_mask s') = length (st_mask s) \<and>
    (\<forall>i. i \<noteq> nat pos \<longrightarrow> known s' ! i = known s ! i \<and> st_mask s' ! i = st_mask s ! i) \<and>
    (\<forall>m. m \<noteq> nat k \<longrightarrow> bit (known s' ! nat pos) m = bit (known s ! nat pos) m \<and>
                        bit (st_mask s' ! nat pos) m = bit (st_mask s ! nat pos) m) \<and>
    (type = CHR ''K'' \<longrightarrow> bit (known s' ! nat pos) (nat k) \<and> bit (st_mask s' ! nat pos) (nat k)) \<and>
    (type = CHR ''C'' \<longrightarrow> \<not> bit (known s' ! nat pos) (nat k) \<and> \<not> bit (st_mask s' ! nat pos) (nat k)) \<and>
    (type = CHR ''U'' \<longrightarrow> \<not> bit (known s' ! nat pos) (nat k) \<and> bit (st_mask s' ! nat pos) (nat k)) \<and>
    (bounds_ordered s \<longrightarrow> bounds_ordered s') \<and>
    completed s' = (completed s \<or>
      fst (subsets_validate (s'\<lparr>completed := completed s\<rparr>) False False) = STATUS_COMPLETE)"
proof -
  define ret where "ret = apply_bit_move type (nat pos) (nat k) s"
  define s' where "s' = (if fst (subsets_validate ret False False) = STATUS_COMPLETE
    then ret\<lparr>completed := True\<rparr> else ret)"
  have S: "type \<noteq> CHR ''S''"
    using assms(3) by auto
  have run: "execute_move s (move_string type pos k) = (s, Some s')"
    using assms(4-8) by (simp add: execute_move_bit_move [OF S] dup_game_sized [OF assms(1)]
        Let_def ret_def s'_def)
  have p: "nat pos < length (known s)" "nat pos < length (st_mask s)"
    using assms(1,4,5) by (simp_all add: sized_def nat_less_iff)
  have k: "nat k < 32"
    using assms(2,6,7) by simp
  note fr = apply_bit_move_frame [OF p k assms(3), folded ret_def]
  have fields: "st_w s' = st_w ret" "st_h s' = st_h ret" "st_n s' = st_n ret"
    "clues s' = clues ret" "immutable s' = immutable ret" "cheated s' = cheated ret"
    "known s' = known ret" "st_mask s' = st_mask ret"
    by (simp_all add: s'_def)
  have restored: "s'\<lparr>completed := completed s\<rparr> = ret"
    using fr(6) by (simp add: s'_def)
  have compl: "completed s' = (completed s \<or> fst (subsets_validate ret False False) = STATUS_COMPLETE)"
    using fr(6) by (simp add: s'_def)
  have ord: "bounds_ordered s'" if "bounds_ordered s"
    unfolding bounds_ordered_def fields fr(1,2)
  proof (intro ballI)
    fix i assume "i \<in> {0..<st_w s * st_h s}"
    then have "known s ! i AND st_mask s ! i = known s ! i"
      using that by (simp add: bounds_ordered_def)
    then show "known ret ! i AND st_mask ret ! i = known ret ! i"
      unfolding ret_def by (rule apply_bit_move_ordered [OF p k])
  qed
  show ?thesis
    apply (rule exI [of _ s'])
    unfolding restored compl fields
    using run fr ord compl by simp
qed


theorem execute_move_frame_witness:
  "sized broken_arrow_board \<and> st_n broken_arrow_board \<le> 32 \<and>
   (5::int) < int (st_w broken_arrow_board * st_h broken_arrow_board) \<and>
   (2::int) < int (st_n broken_arrow_board) \<and>
   immutable broken_arrow_board ! nat 5 AND push_bit (nat 2) 1 = 0 \<and>
   (\<exists>s'. execute_move broken_arrow_board (move_string (CHR ''K'') 5 2) = (broken_arrow_board, Some s') \<and>
      clues s' = clues broken_arrow_board \<and> immutable s' = immutable broken_arrow_board \<and>
      known s' ! 4 = known broken_arrow_board ! 4 \<and>
      bit (known s' ! 5) 2 \<and> bit (st_mask s' ! 5) 2 \<and>
      bit (known s' ! 5) 1 = bit (known broken_arrow_board ! 5) 1)"
proof -
  have h: "sized broken_arrow_board" "st_n broken_arrow_board \<le> 32"
    "CHR ''K'' = CHR ''K'' \<or> CHR ''K'' = CHR ''C'' \<or> CHR ''K'' = CHR ''U''"
    "(0::int) \<le> 5" "(5::int) < int (st_w broken_arrow_board * st_h broken_arrow_board)"
    "(0::int) \<le> 2" "(2::int) < int (st_n broken_arrow_board)"
    "immutable broken_arrow_board ! nat 5 AND push_bit (nat 2) 1 = 0"
    by code_simp+
  obtain s' where s': "execute_move broken_arrow_board (move_string (CHR ''K'') 5 2) = (broken_arrow_board, Some s')"
    "clues s' = clues broken_arrow_board" "immutable s' = immutable broken_arrow_board"
    "\<forall>i. i \<noteq> nat 5 \<longrightarrow> known s' ! i = known broken_arrow_board ! i \<and> st_mask s' ! i = st_mask broken_arrow_board ! i"
    "\<forall>m. m \<noteq> nat 2 \<longrightarrow> bit (known s' ! nat 5) m = bit (known broken_arrow_board ! nat 5) m \<and>
                        bit (st_mask s' ! nat 5) m = bit (st_mask broken_arrow_board ! nat 5) m"
    "bit (known s' ! nat 5) (nat 2) \<and> bit (st_mask s' ! nat 5) (nat 2)"
    using execute_move_frame [OF h] by auto
  have "known s' ! 4 = known broken_arrow_board ! 4"
    using s'(4) by simp
  moreover have "bit (known s' ! 5) 1 = bit (known broken_arrow_board ! 5) 1"
    using s'(5) by simp
  ultimately show ?thesis
    using h s'(1,2,3,6) by simp
qed

text \<open>
  Where claim C10 fails as it is written: on \<open>last_bit_board\<close> the move \<^verbatim>\<open>C0,0\<close> rules
  out the only open bit, the validator finds the board complete, and the returned state
  has \<^verbatim>\<open>completed\<close> set although the state passed in had not.
\<close>

theorem execute_move_frame_counterexample:
  "\<not> completed last_bit_board \<and>
   map_option completed (snd (execute_move last_bit_board (move_string (CHR ''C'') 0 0))) = Some True"
  by code_simp

text \<open>
  Claim C5. \<^verbatim>\<open>subsets_disjoint\<close> leaves the cube row of a resolved cell alone. From the
  row of an unresolved cell \<open>j\<close> it eliminates candidate \<open>opt\<close> exactly when \<open>j\<close> has a
  neighbour \<open>i\<close> with no arrow either way and \<open>opt\<close> is 0, is \<open>ALL_BITS(n)\<close>, or is
  comparable to the value of \<open>i\<close>, \<open>i\<close> being resolved. So next to a resolved cell of
  value \<open>v\<close> across such an edge, every candidate comparable to \<open>v\<close> goes, and nothing else
  goes on account of that edge; and 0 and \<open>ALL_BITS(n)\<close> go from every unresolved end of
  such an edge.
\<close>

theorem subsets_disjoint_eliminates:
  assumes "sized s" and "length cube = st_w s * st_h s * 2 ^ st_n s"
    and "j < st_w s * st_h s" and "opt < 2 ^ st_n s"
  shows "snd (subsets_disjoint s cube) ! (j * 2 ^ st_n s + opt) =
    (cube ! (j * 2 ^ st_n s + opt) \<and>
     \<not> (\<not> resolved s j \<and>
        (\<exists>d \<in> {0..<4}. \<exists>i \<in> {0..<st_w s * st_h s}. incomparable_edge s j d i \<and>
           (opt = 0 \<or> opt = 2 ^ st_n s - 1 \<or> (resolved s i \<and> comparable (known s ! i) opt)))))"
  using assms(2-4) by (rule subsets_disjoint_entry)

text \<open>
  Scenario T3: beside the cell holding \<open>0b1100\<close>, exactly the candidates 0, 4, 8, 12, 13,
  14 and 15 are eliminated from the all-true row of cell 6.
\<close>

theorem subsets_disjoint_eliminates_witness:
  "sized t3_board \<and>
   length (replicate 256 True) = st_w t3_board * st_h t3_board * 2 ^ st_n t3_board \<and>
   incomparable_edge t3_board 6 3 5 \<and> resolved t3_board 5 \<and> \<not> resolved t3_board 6 \<and>
   comparable (known t3_board ! 5) 8 \<and>
   \<not> snd (subsets_disjoint t3_board (replicate 256 True)) ! (6 * 2 ^ st_n t3_board + 8) \<and>
   map (\<lambda>opt. snd (subsets_disjoint t3_board (replicate 256 True)) ! (6 * 16 + opt)) [0..<16] =
     [False, True, True, True, False, True, True, True,
      False, True, True, True, False, False, False, False]"
proof -
  have h: "sized t3_board"
    "length (replicate 256 True) = st_w t3_board * st_h t3_board * 2 ^ st_n t3_board"
    "6 < st_w t3_board * st_h t3_board" "8 < (2::nat) ^ st_n t3_board"
    by code_simp+
  have e: "incomparable_edge t3_board 6 3 5" "resolved t3_board 5" "\<not> resolved t3_board 6"
    "comparable (known t3_board ! 5) 8"
    by code_simp+
  have "(3::nat) \<in> {0..<4} \<and> 5 \<in> {0..<st_w t3_board * st_h t3_board} \<and>
      incomparable_edge t3_board 6 3 5 \<and> resolved t3_board 5 \<and> comparable (known t3_board ! 5) 8"
    using e h by code_simp
  then have ex: "\<exists>d \<in> {0..<4}. \<exists>i \<in> {0..<st_w t3_board * st_h t3_board}.
      incomparable_edge t3_board 6 d i \<and>
      (8 = (0::nat) \<or> 8 = (2::nat) ^ st_n t3_board - 1 \<or>
       (resolved t3_board i \<and> comparable (known t3_board ! i) 8))"
    by blast
  have one: "\<not> snd (subsets_disjoint t3_board (replicate 256 True)) ! (6 * 2 ^ st_n t3_board + 8)"
    using subsets_disjoint_eliminates [OF h] e(3) ex by blast
  have row: "map (\<lambda>opt. snd (subsets_disjoint t3_board (replicate 256 True)) ! (6 * 16 + opt)) [0..<16] =
     [False, True, True, True, False, True, True, True,
      False, True, True, True, False, False, False, False]"
    by code_simp
  show ?thesis
    using h(1,2) e one row by simp
qed

text \<open>
  Claim C6. On every board the game can load (\<open>wf_board\<close>) the solver returns, and the
  status it returns is the verdict of the validator on the board it leaves behind. So
  when \<^verbatim>\<open>subsets_solve_game\<close> returns \<^verbatim>\<open>STATUS_COMPLETE\<close>, \<^verbatim>\<open>subsets_validate\<close> returns
  \<^verbatim>\<open>STATUS_COMPLETE\<close> on that board, with or without a flags buffer (\<open>hf\<close>) and a counts
  buffer (\<open>hc\<close>).
\<close>

theorem solver_validator_agree:
  assumes "wf_board s"
  shows "\<exists>ret s'. subsets_solve_game s = Some (ret, s') \<and>
    ret = fst (subsets_validate s' False True) \<and>
    (ret = STATUS_COMPLETE \<longrightarrow> fst (subsets_validate s' hf hc) = STATUS_COMPLETE)"
proof -
  obtain ret s' where r: "subsets_solve_game s = Some (ret, s')" "wf_board s'"
    "ret = fst (subsets_validate s' False True)"
    using subsets_solve_game_returns [OF assms] by blast
  have "fst (subsets_validate s' hf hc) = STATUS_COMPLETE" if "ret = STATUS_COMPLETE"
    using complete_any_buffers [OF r(2)] r(3) that by simp
  then show ?thesis
    using r(1,3) by blast
qed

text \<open>
  Scenario T2: the board with every cell given but cell 5. The solver fills in the 5
  (an arrow step and a cube step) and reports \<^verbatim>\<open>STATUS_COMPLETE\<close>, and so does the
  validator, asked for flags and counts, on the board the solver leaves.
\<close>

theorem solver_validator_agree_witness:
  "wf_board t2_board \<and>
   subsets_solve_game t2_board =
     Some (STATUS_COMPLETE, identity_board\<lparr>immutable := (replicate 16 15)[5 := 0]\<rparr>) \<and>
   fst (subsets_validate (identity_board\<lparr>immutable := (replicate 16 15)[5 := 0]\<rparr>) True True) =
     STATUS_COMPLETE"
proof -
  have wf: "wf_board t2_board"
    by code_simp
  have run: "subsets_solve_game t2_board =
      Some (STATUS_COMPLETE, identity_board\<lparr>immutable := (replicate 16 15)[5 := 0]\<rparr>)"
    by code_simp
  show ?thesis
    using solver_validator_agree [OF wf, of True True] wf run by simp
qed





text \<open>
  Claim C7, as amended. \<^verbatim>\<open>attempt_load_game\<close> never returns "Expecting flag URDL in game
  description": the loop around the \<^verbatim>\<open>switch\<close> lets only the letters U, R, D, L reach it.
  Wherever the loop stands in a description, with text left to read: a character that
  is neither a digit nor \<^verbatim>\<open>_\<close> where the value of a cell should start is answered by
  "Expecting number in game description" (by "Too much data to fill grid" if the grid
  is full already); and a character other than a comma after the value and the arrow
  letters of a cell is answered by "Missing separator" if cells remain to be read and
  by "Too much data to fill grid" if that cell was the last.
\<close>

theorem attempt_load_game_errors:
  "attempt_load_game state desc \<noteq> Inl ''Expecting flag URDL in game description'' \<and>
   (loop_at (st_w state * st_w state) (st_n state) (0, desc, state) (i, p, st) \<and> p \<noteq> [] \<longrightarrow>
     (i < st_w state * st_w state \<and> \<not> is_digit (hd p) \<and> hd p \<noteq> CHR ''_'' \<longrightarrow>
        attempt_load_game state desc = Inl ''Expecting number in game description'') \<and>
     (st_w state * st_w state \<le> i \<longrightarrow>
        attempt_load_game state desc = Inl ''Too much data to fill grid'') \<and>
     (load_value (st_w state * st_w state) (st_n state) i p st = Inr (p1, st1) \<and>
      dropWhile flag_letter p1 = ch # rest \<and> ch \<noteq> CHR '','' \<longrightarrow>
        attempt_load_game state desc =
          Inl (if i + 1 < st_w state * st_w state then ''Missing separator''
               else ''Too much data to fill grid'')))"
proof -
  have 1: "attempt_load_game state desc \<noteq> Inl ''Expecting flag URDL in game description''"
    by (rule attempt_load_game_not_flag_error)
  have 2: "attempt_load_game state desc = Inl ''Expecting number in game description''"
    if "loop_at (st_w state * st_w state) (st_n state) (0, desc, state) (i, p, st)" "p \<noteq> []"
      "i < st_w state * st_w state" "\<not> is_digit (hd p)" "hd p \<noteq> CHR ''_''"
    using that(1) load_cells_expecting_number [OF that(2-5)] by (rule attempt_load_game_at)
  have 3: "attempt_load_game state desc = Inl ''Too much data to fill grid''"
    if "loop_at (st_w state * st_w state) (st_n state) (0, desc, state) (i, p, st)" "p \<noteq> []"
      "st_w state * st_w state \<le> i"
    using that(1) load_cells_too_much [OF that(2,3)] by (rule attempt_load_game_at)
  have 4: "attempt_load_game state desc =
      Inl (if i + 1 < st_w state * st_w state then ''Missing separator''
           else ''Too much data to fill grid'')"
    if "loop_at (st_w state * st_w state) (st_n state) (0, desc, state) (i, p, st)" "p \<noteq> []"
      "load_value (st_w state * st_w state) (st_n state) i p st = Inr (p1, st1)"
      "dropWhile flag_letter p1 = ch # rest" "ch \<noteq> CHR '',''"
    using that(1) load_cells_after_cell [OF that(2-5)] by (rule attempt_load_game_at)
  show ?thesis
    using 1 2 3 4 by blast
qed

text \<open>
  On the blank 4 by 4 board: in \<^verbatim>\<open>_,X\<close> the letter X stands where the value of cell 1
  should start; in \<^verbatim>\<open>_,7X\<close> it stands after the value of cell 1.
\<close>

theorem attempt_load_game_errors_witness:
  "loop_at 16 4 (0, ''_,X'', blank_game \<lparr>par_w = 4, par_h = 4, par_n = 4\<rparr>)
     (1, ''X'', blank_game \<lparr>par_w = 4, par_h = 4, par_n = 4\<rparr>) \<and>
   attempt_load_game (blank_game \<lparr>par_w = 4, par_h = 4, par_n = 4\<rparr>) ''_,X'' =
     Inl ''Expecting number in game description'' \<and>
   loop_at 16 4 (0, ''_,7X'', blank_game \<lparr>par_w = 4, par_h = 4, par_n = 4\<rparr>)
     (1, ''7X'', blank_game \<lparr>par_w = 4, par_h = 4, par_n = 4\<rparr>) \<and>
   attempt_load_game (blank_game \<lparr>par_w = 4, par_h = 4, par_n = 4\<rparr>) ''_,7X'' =
     Inl ''Missing separator''"
proof -
  let ?b = "blank_game \<lparr>par_w = 4, par_h = 4, par_n = 4\<rparr>"
  have dims: "st_w ?b * st_w ?b = 16" "st_n ?b = 4"
    by code_simp+
  have c1: "load_cell 16 4 0 ''_,X'' ?b = Inr (''X'', ?b)"
    by code_simp
  have c2: "load_cell 16 4 0 ''_,7X'' ?b = Inr (''7X'', ?b)"
    by code_simp
  have l1: "loop_at 16 4 (0, ''_,X'', ?b) (0 + 1, ''X'', ?b)"
    by (rule loop_at.step [OF loop_at.start _ c1]) simp
  have l2: "loop_at 16 4 (0, ''_,7X'', ?b) (0 + 1, ''7X'', ?b)"
    by (rule loop_at.step [OF loop_at.start _ c2]) simp
  have x: "\<not> is_digit (hd ''X'')" "hd ''X'' \<noteq> CHR ''_''"
    by code_simp+
  have v: "load_value 16 4 1 ''7X'' ?b =
      Inr (''X'', ?b\<lparr>known := (known ?b)[1 := 7], st_mask := (st_mask ?b)[1 := 7],
                      immutable := (immutable ?b)[1 := 15]\<rparr>)"
    by code_simp
  have d: "dropWhile flag_letter ''X'' = CHR ''X'' # []"
    by code_simp
  have e1: "attempt_load_game ?b ''_,X'' = Inl ''Expecting number in game description''"
    using attempt_load_game_errors [of ?b "''_,X''" 1 "''X''" ?b] l1 x by (simp add: dims)
  have e2: "attempt_load_game ?b ''_,7X'' = Inl ''Missing separator''"
    using attempt_load_game_errors [of ?b "''_,7X''" 1 "''7X''" ?b "''X''"
        "?b\<lparr>known := (known ?b)[1 := 7], st_mask := (st_mask ?b)[1 := 7],
             immutable := (immutable ?b)[1 := 15]\<rparr>" "CHR ''X''" "[]"] l2 v d
    by (simp add: dims)
  show ?thesis
    using l1 l2 e1 e2 by simp
qed

text \<open>
  Where claim C7 fails as it is written: the description \<^verbatim>\<open>0X\<close> is rejected because of
  the X, which is no character of a description, and the error is neither of the two
  messages of the claim.
\<close>

theorem attempt_load_game_errors_counterexample:
  "\<not> desc_char (CHR ''X'') \<and>
   attempt_load_game (blank_game \<lparr>par_w = 4, par_h = 4, par_n = 4\<rparr>) ''0X'' = Inl ''Missing separator''"
  by code_simp

end
